theory Spec2Isabelle
  imports Complex_Main "HOL-Library.Sublist" "HOL-Library.Option_ord" "HOL-Library.Product_Lexorder"
begin

section \<open>jishaku.features.management: extension and bot control commands\<close>

text \<open>
  The module \<^verbatim>\<open>jishaku/features/management.py\<close> defines six command handlers on top of the
  discord.py bot framework. The handlers are modelled by explicit state passing: the state
  of the outside world (bot, gateway, Discord API) is a value of an arbitrary type \<open>'w\<close> that
  only the framework's operations change, every call of a framework method is recorded in
  a trace, and an exception is a value. Strings are byte strings (UTF-8).
\<close>

subsection \<open>Exceptions\<close>

text \<open>
  An exception is its class and the text \<^verbatim>\<open>str(exc)\<close>. The classes that the source raises or
  names in an \<^verbatim>\<open>except\<close> clause are constructors of their own; \<open>OtherException n\<close> is any
  other subclass of \<^verbatim>\<open>Exception\<close> with class name \<open>n\<close>, and \<open>NonException n\<close> is a
  \<^verbatim>\<open>BaseException\<close> outside \<^verbatim>\<open>Exception\<close> (\<^verbatim>\<open>CancelledError\<close>, \<^verbatim>\<open>KeyboardInterrupt\<close>,
  \<^verbatim>\<open>SystemExit\<close>), which \<^verbatim>\<open>except Exception\<close> does not catch.
\<close>

datatype exc_class =
    HTTPException
  | BadArgument
  | ValueError
  | AssertionError
  | IndexError
  | AttributeError
  | TypeError
  | OtherException string
  | NonException string

datatype exc = Exc (exc_class: exc_class) (exc_str: string)

fun is_Exception :: "exc \<Rightarrow> bool" where
  "is_Exception (Exc (NonException n) msg) = False"
| "is_Exception (Exc c msg) = True"

fun is_HTTPException :: "exc \<Rightarrow> bool" where
  "is_HTTPException (Exc HTTPException msg) = True"
| "is_HTTPException (Exc c msg) = False"

text \<open>\<^verbatim>\<open>type(exc).__name__\<close>\<close>

fun type_name :: "exc \<Rightarrow> string" where
  "type_name (Exc HTTPException msg) = ''HTTPException''"
| "type_name (Exc BadArgument msg) = ''BadArgument''"
| "type_name (Exc ValueError msg) = ''ValueError''"
| "type_name (Exc AssertionError msg) = ''AssertionError''"
| "type_name (Exc IndexError msg) = ''IndexError''"
| "type_name (Exc AttributeError msg) = ''AttributeError''"
| "type_name (Exc TypeError msg) = ''TypeError''"
| "type_name (Exc (OtherException n) msg) = n"
| "type_name (Exc (NonException n) msg) = n"

subsection \<open>The command tree as objects in a store\<close>

text \<open>
  Application commands are objects of the framework that the sync command reaches through
  references. The store is the list of all objects, a reference is an index into it, and
  allocation appends. A \<open>PyList\<close> is a Python list of references; the three other objects are
  discord.py's \<^verbatim>\<open>app_commands.Command\<close> (name, keys of \<^verbatim>\<open>_params\<close> in order, callback),
  \<^verbatim>\<open>app_commands.Group\<close> (name, values of \<^verbatim>\<open>_children\<close> in order) and
  \<^verbatim>\<open>app_commands.ContextMenu\<close> (name, callback). A callback is named by a string.
\<close>

type_synonym ref = nat

datatype obj =
    PyList "ref list"
  | AppCommand string "string list" string
  | AppGroup string "ref list"
  | AppContextMenu string string

type_synonym store = "obj list"

definition deref :: "store \<Rightarrow> ref \<Rightarrow> obj option" where
  "deref st r = (if r < length st then Some (st ! r) else None)"

definition alloc :: "obj \<Rightarrow> store \<Rightarrow> ref \<times> store" where
  "alloc x st = (length st, st @ [x])"

subsection \<open>The framework\<close>

text \<open>
  Every call out of the module that the trace records. The call of an extension method
  is recorded with the exception that it raised, if any. \<open>AddLine\<close> is
  \<^verbatim>\<open>Paginator.add_line(line, empty=True)\<close>; the two upserts carry \<^verbatim>\<open>self.bot.application_id\<close>,
  the guild id and the payload.
\<close>

datatype event =
    LoadExtension string "exc option"
  | ReloadExtension string "exc option"
  | UnloadExtension string "exc option"
  | AddLine string
  | Send string
  | Edit string
  | Close
  | ApplicationInfo
  | GetAllCommands "int option"
  | UpsertGlobal "int option" "string list"
  | UpsertGuild "int option" int "string list"

text \<open>
  The operations of the bot, of discord.py and of the Python library that the module
  calls. None of them is defined in this module, so each is a parameter; an operation that
  talks to the outside takes the world and returns the new one, and an operation that can
  raise returns the exception. \<open>'p\<close> is the state of a \<^verbatim>\<open>commands.Paginator\<close>.
  \<^item> \<open>extension_loaded n w\<close>: \<^verbatim>\<open>n in self.bot.extensions\<close>
  \<^item> \<open>format_exception e k\<close>: \<^verbatim>\<open>''.join(traceback.format_exception(type(e), e, e.__traceback__, k))\<close>
  \<^item> \<open>application_id w\<close>: \<^verbatim>\<open>self.bot.application_id\<close>
  \<^item> \<open>guild_command_keys w\<close>: \<^verbatim>\<open>self.bot.tree._guild_commands.keys()\<close>
  \<^item> \<open>get_all_commands g w\<close>: the references that \<^verbatim>\<open>self.bot.tree._get_all_commands(guild=g)\<close>
    returns in a new list
  \<^item> \<open>to_dict st r\<close>: \<^verbatim>\<open>command.to_dict()\<close> of the command at \<open>r\<close>
  \<^item> \<open>bulk_upsert_global\<close>, \<open>bulk_upsert_guild\<close>: the calls of \<^verbatim>\<open>self.bot.http\<close>,
    returning the raw command data
  \<^item> \<open>app_command d\<close>: the exception, if any, of \<^verbatim>\<open>discord.app_commands.AppCommand(data=d, state=...)\<close>
  \<^item> \<open>py_int t\<close>: \<^verbatim>\<open>int(t)\<close>, \<open>None\<close> for \<^verbatim>\<open>ValueError\<close>
  \<^item> \<open>file_loc_inspection\<close>, \<open>line_span_inspection\<close>: \<^verbatim>\<open>str(inspections.file_loc_inspection(x))\<close>
    and \<^verbatim>\<open>str(inspections.line_span_inspection(x))\<close> of a callback, or of \<^verbatim>\<open>None\<close>
  \<^item> \<open>perf_counter\<close>, \<open>latency\<close>, \<open>mean_stddev\<close>, \<open>fmt_2f\<close>: \<^verbatim>\<open>time.perf_counter()\<close>,
    \<^verbatim>\<open>self.bot.latency\<close>, \<^verbatim>\<open>jishaku.math.mean_stddev\<close> and the format \<^verbatim>\<open>:.2f\<close>
\<close>

record ('w, 'p) framework =
  extension_loaded :: "string \<Rightarrow> 'w \<Rightarrow> bool"
  load_extension :: "string \<Rightarrow> 'w \<Rightarrow> exc option \<times> 'w"
  reload_extension :: "string \<Rightarrow> 'w \<Rightarrow> exc option \<times> 'w"
  unload_extension :: "string \<Rightarrow> 'w \<Rightarrow> exc option \<times> 'w"
  format_exception :: "exc \<Rightarrow> nat \<Rightarrow> string"
  new_paginator :: "'p"
  add_line :: "string \<Rightarrow> 'p \<Rightarrow> exc + 'p"
  pages :: "'p \<Rightarrow> string list"
  send :: "string \<Rightarrow> 'w \<Rightarrow> exc option \<times> 'w"
  edit :: "string \<Rightarrow> 'w \<Rightarrow> exc option \<times> 'w"
  close :: "'w \<Rightarrow> exc option \<times> 'w"
  application_info :: "'w \<Rightarrow> (exc + int) \<times> 'w"
  application_id :: "'w \<Rightarrow> int option"
  guild_command_keys :: "'w \<Rightarrow> int list"
  get_all_commands :: "int option \<Rightarrow> 'w \<Rightarrow> ref list"
  to_dict :: "store \<Rightarrow> ref \<Rightarrow> string"
  bulk_upsert_global :: "int option \<Rightarrow> string list \<Rightarrow> 'w \<Rightarrow> (exc + string list) \<times> 'w"
  bulk_upsert_guild :: "int option \<Rightarrow> int \<Rightarrow> string list \<Rightarrow> 'w \<Rightarrow> (exc + string list) \<times> 'w"
  app_command :: "string \<Rightarrow> exc option"
  py_int :: "string \<Rightarrow> int option"
  file_loc_inspection :: "string option \<Rightarrow> exc + string"
  line_span_inspection :: "string option \<Rightarrow> exc + string"
  perf_counter :: "'w \<Rightarrow> real \<times> 'w"
  latency :: "'w \<Rightarrow> real"
  mean_stddev :: "real list \<Rightarrow> real \<times> real"
  fmt_2f :: "real \<Rightarrow> string"

text \<open>The invocation context: \<^verbatim>\<open>ctx.author.id\<close>, \<^verbatim>\<open>ctx.invoked_with\<close>, and \<^verbatim>\<open>ctx.guild.id\<close>
  when \<^verbatim>\<open>ctx.guild\<close> is set.\<close>

record contextA =
  author_id :: int
  invoked_with :: string
  guild_id :: "int option"

text \<open>The state of a run: the world, the calls made so far, and the store.\<close>

record 'w run =
  world :: 'w
  trace :: "event list"
  heap :: store

definition called :: "event \<Rightarrow> 'w \<Rightarrow> 'w run \<Rightarrow> 'w run" where
  "called ev w' s = s\<lparr>world := w', trace := trace s @ [ev]\<rparr>"

text \<open>A loop over a list whose body may raise: the exception ends the loop.\<close>

fun for_each :: "('a \<Rightarrow> 'st \<Rightarrow> exc option \<times> 'st) \<Rightarrow> 'a list \<Rightarrow> 'st \<Rightarrow> exc option \<times> 'st" where
  "for_each body [] st = (None, st)"
| "for_each body (x # xs) st =
     (case body x st of
        (Some e, st') \<Rightarrow> (Some e, st')
      | (None, st') \<Rightarrow> for_each body xs st')"

text \<open>\<^verbatim>\<open>await ctx.send(text)\<close>\<close>

definition ctx_send :: "('w, 'p) framework \<Rightarrow> string \<Rightarrow> 'w run \<Rightarrow> exc option \<times> 'w run" where
  "ctx_send fw text s =
     (let (r, w') = send fw text (world s) in (r, called (Send text) w' s))"

text \<open>\<^verbatim>\<open>for page in paginator.pages: await ctx.send(page)\<close>\<close>

definition send_pages :: "('w, 'p) framework \<Rightarrow> 'p \<Rightarrow> 'w run \<Rightarrow> exc option \<times> 'w run" where
  "send_pages fw pg s = for_each (ctx_send fw) (pages fw pg) s"

text \<open>\<^verbatim>\<open>paginator.add_line(line, empty=True)\<close> on the paginator of the state.\<close>

definition paginator_add_line ::
  "('w, 'p) framework \<Rightarrow> string \<Rightarrow> 'p \<times> 'w run \<Rightarrow> exc option \<times> 'p \<times> 'w run" where
  "paginator_add_line fw line st =
     (let (pg, s) = st; s' = s\<lparr>trace := trace s @ [AddLine line]\<rparr>
      in case add_line fw line pg of
           Inl e \<Rightarrow> (Some e, pg, s')
         | Inr pg' \<Rightarrow> (None, pg', s'))"

subsection \<open>The gate\<close>

text \<open>
  \<^verbatim>\<open>if ctx.author.id != 271140080188522497 and ctx.author.id != 982960716413825085: return\<close>
\<close>

definition not_allowed :: "contextA \<Rightarrow> bool" where
  "not_allowed ctx \<longleftrightarrow> author_id ctx \<noteq> 271140080188522497 \<and> author_id ctx \<noteq> 982960716413825085"

subsection \<open>load, reload and unload\<close>

definition reload_icon :: string where
  "reload_icon = ''<:pln:1002153692268593173>''"

definition load_icon :: string where
  "load_icon = ''<:lopn:1002153688812490842>''"

definition unload_icon :: string where
  "unload_icon = ''<:Info:1002155559098781787>''"

text \<open>The two lines of a paginator: \<^verbatim>\<open>f"{icon} `{extension}`"\<close> and
  \<^verbatim>\<open>f"{icon} `{extension}`\n```py\n{traceback_data}\n```"\<close>.\<close>

definition success_line :: "string \<Rightarrow> string \<Rightarrow> string" where
  "success_line icon extension = icon @ '' `'' @ extension @ ''`''"

definition failure_line :: "string \<Rightarrow> string \<Rightarrow> string \<Rightarrow> string" where
  "failure_line icon extension traceback_data =
     icon @ '' `'' @ extension @ ''`'' @ [CHR 0x0A] @ ''```py'' @ [CHR 0x0A]
       @ traceback_data @ [CHR 0x0A] @ ''```''"

text \<open>
  The \<^verbatim>\<open>try\<close> statement of both loops, after the method has run with result \<open>r\<close>:
  \<^verbatim>\<open>except Exception\<close> formats the exception with a traceback of one frame and adds the
  failure line; another exception leaves the handler; \<^verbatim>\<open>else\<close> adds the success line.
\<close>

definition report_extension ::
  "('w, 'p) framework \<Rightarrow> string \<Rightarrow> string \<Rightarrow> exc option \<Rightarrow> 'p \<times> 'w run \<Rightarrow> exc option \<times> 'p \<times> 'w run" where
  "report_extension fw icon extension r st =
     (case r of
        Some exc \<Rightarrow>
          if is_Exception exc
          then paginator_add_line fw (failure_line icon extension (format_exception fw exc 1)) st
          else (Some exc, st)
      | None \<Rightarrow> paginator_add_line fw (success_line icon extension) st)"

text \<open>The body of the loop of \<^verbatim>\<open>jsk_load\<close>.\<close>

definition load_body ::
  "('w, 'p) framework \<Rightarrow> string \<Rightarrow> 'p \<times> 'w run \<Rightarrow> exc option \<times> 'p \<times> 'w run" where
  "load_body fw extension st =
     (let (pg, s) = st in
      if extension_loaded fw extension (world s)
      then (let (r, w') = reload_extension fw extension (world s)
            in report_extension fw reload_icon extension r
                 (pg, called (ReloadExtension extension r) w' s))
      else (let (r, w') = load_extension fw extension (world s)
            in report_extension fw load_icon extension r
                 (pg, called (LoadExtension extension r) w' s)))"

text \<open>
  The extensions that \<^verbatim>\<open>jsk_load\<close> works on: \<^verbatim>\<open>itertools.chain(*extensions)\<close>, after
  \<^verbatim>\<open>jsk reload\<close> on its own has been replaced by \<^verbatim>\<open>[['jishaku']]\<close>. Each argument of
  the command is the list of names that \<^verbatim>\<open>ExtensionConverter\<close> made of it.
\<close>

definition load_targets :: "contextA \<Rightarrow> string list list \<Rightarrow> string list" where
  "load_targets ctx extensions =
     concat (if invoked_with ctx = ''reload'' \<and> extensions = [] then [[''jishaku'']] else extensions)"

definition jsk_load ::
  "('w, 'p) framework \<Rightarrow> contextA \<Rightarrow> string list list \<Rightarrow> 'w run \<Rightarrow> exc option \<times> 'w run" where
  "jsk_load fw ctx extensions s =
     (if not_allowed ctx then (None, s)
      else case for_each (load_body fw) (load_targets ctx extensions) (new_paginator fw, s) of
             (Some e, pg, s') \<Rightarrow> (Some e, s')
           | (None, pg, s') \<Rightarrow> send_pages fw pg s')"

text \<open>The body of the loop of \<^verbatim>\<open>jsk_unload\<close>.\<close>

definition unload_body ::
  "('w, 'p) framework \<Rightarrow> string \<Rightarrow> 'p \<times> 'w run \<Rightarrow> exc option \<times> 'p \<times> 'w run" where
  "unload_body fw extension st =
     (let (pg, s) = st; (r, w') = unload_extension fw extension (world s)
      in report_extension fw unload_icon extension r
           (pg, called (UnloadExtension extension r) w' s))"

definition jsk_unload ::
  "('w, 'p) framework \<Rightarrow> contextA \<Rightarrow> string list list \<Rightarrow> 'w run \<Rightarrow> exc option \<times> 'w run" where
  "jsk_unload fw ctx extensions s =
     (if not_allowed ctx then (None, s)
      else case for_each (unload_body fw) (concat extensions) (new_paginator fw, s) of
             (Some e, pg, s') \<Rightarrow> (Some e, s')
           | (None, pg, s') \<Rightarrow> send_pages fw pg s')"

subsection \<open>shutdown and the invite link\<close>

definition jsk_shutdown ::
  "('w, 'p) framework \<Rightarrow> contextA \<Rightarrow> 'w run \<Rightarrow> exc option \<times> 'w run" where
  "jsk_shutdown fw ctx s =
     (if not_allowed ctx then (None, s)
      else case ctx_send fw ''Logging out now <:bot:1002153704645988372>'' s of
             (Some e, s1) \<Rightarrow> (Some e, s1)
           | (None, s1) \<Rightarrow>
               (let (r, w') = close fw (world s1) in (r, called Close w' s1)))"

text \<open>\<^verbatim>\<open>str(n)\<close> of an integer: decimal digits, with a minus sign for a negative one.\<close>

fun str_nat :: "nat \<Rightarrow> string" where
  "str_nat n = (if n < 10 then [char_of (48 + n)] else str_nat (n div 10) @ [char_of (48 + n mod 10)])"

definition str_int :: "int \<Rightarrow> string" where
  "str_int i = (if i < 0 then ''-'' @ str_nat (nat (- i)) else str_nat (nat i))"

definition invite_text :: "int \<Rightarrow> string" where
  "invite_text client_id =
     ''Link to invite this bot:'' @ [CHR 0x0A]
       @ ''https://discordapp.com/oauth2/authorize?client_id='' @ str_int client_id
       @ ''&permissions=8&scope=bot''"

text \<open>\<^verbatim>\<open>jsk_invite\<close> has no gate, and does not read \<^verbatim>\<open>perms\<close>.\<close>

definition jsk_invite ::
  "('w, 'p) framework \<Rightarrow> contextA \<Rightarrow> string list \<Rightarrow> 'w run \<Rightarrow> exc option \<times> 'w run" where
  "jsk_invite fw ctx perms s =
     (let (r, w') = application_info fw (world s); s1 = called ApplicationInfo w' s
      in case r of
           Inl e \<Rightarrow> (Some e, s1)
         | Inr client_id \<Rightarrow> ctx_send fw (invite_text client_id) s1)"

subsection \<open>Round-trip time\<close>

definition nl :: string where
  "nl = [CHR 0x0A]"

text \<open>\<^verbatim>\<open>'\n'.join(lines)\<close> and \<^verbatim>\<open>text.split('\n')\<close>, for any separator.\<close>

fun join :: "string \<Rightarrow> string list \<Rightarrow> string" where
  "join sep [] = []"
| "join sep [x] = x"
| "join sep (x # y # ys) = x @ sep @ join sep (y # ys)"

fun split :: "char \<Rightarrow> string \<Rightarrow> string list" where
  "split c [] = [[]]"
| "split c (x # xs) =
     (if x = c then [] # split c xs
      else case split c xs of [] \<Rightarrow> [[x]] | p # ps \<Rightarrow> (x # p) # ps)"

text \<open>\<^verbatim>\<open>f"Reading {index + 1}: {reading * 100:.2f}ms"\<close> over \<^verbatim>\<open>enumerate(api_readings)\<close>\<close>

definition reading_lines :: "('w, 'p) framework \<Rightarrow> real list \<Rightarrow> string list" where
  "reading_lines fw api_readings =
     map (\<lambda>(index, reading). ''Reading '' @ str_nat (index + 1) @ '': '' @ fmt_2f fw (reading * 100) @ ''ms'')
       (enumerate 0 api_readings)"

text \<open>The text of one iteration; \<^verbatim>\<open>\N{PLUS-MINUS SIGN}\<close> is the bytes C2 B1.\<close>

definition rtt_text :: "('w, 'p) framework \<Rightarrow> real list \<Rightarrow> real list \<Rightarrow> 'w \<Rightarrow> string" where
  "rtt_text fw api_readings websocket_readings w =
     ''Calculating round-trip time...'' @ nl @ nl
     @ join nl (reading_lines fw api_readings)
     @ (if api_readings \<noteq> []
        then (let (average, stddev) = mean_stddev fw api_readings
              in nl @ nl @ ''Average: '' @ fmt_2f fw (average * 100) @ '' '' @ [CHR 0xC2, CHR 0xB1]
                   @ '' '' @ fmt_2f fw (stddev * 100) @ ''ms'')
        else nl @ nl @ ''No readings yet.'')
     @ (if websocket_readings \<noteq> []
        then (let average = sum_list websocket_readings / real (length websocket_readings)
              in nl @ ''Websocket latency: '' @ fmt_2f fw (average * 100) @ ''ms'')
        else nl @ ''Websocket latency: '' @ fmt_2f fw (latency fw w * 100) @ ''ms'')"

text \<open>
  One of the six iterations. The state is \<^verbatim>\<open>message\<close> (set or not), the two lists of
  readings and the run. Floats are taken as reals.
\<close>

definition rtt_body ::
  "('w, 'p) framework \<Rightarrow> nat \<Rightarrow> bool \<times> real list \<times> real list \<times> 'w run
     \<Rightarrow> exc option \<times> bool \<times> real list \<times> real list \<times> 'w run" where
  "rtt_body fw i st =
     (let (message, api_readings, websocket_readings, s) = st;
          text = rtt_text fw api_readings websocket_readings (world s);
          (before, w1) = perf_counter fw (world s);
          (r, w2) = (if message then edit fw text w1 else send fw text w1);
          s2 = called (if message then Edit text else Send text) w2 s
      in case r of
           Some e \<Rightarrow> (Some e, message, api_readings, websocket_readings, s2)
         | None \<Rightarrow>
             (let (after, w3) = perf_counter fw w2;
                  s3 = s2\<lparr>world := w3\<rparr>
              in (None, True, api_readings @ [after - before],
                  (if latency fw w3 > 0 then websocket_readings @ [latency fw w3] else websocket_readings),
                  s3)))"

definition jsk_rtt ::
  "('w, 'p) framework \<Rightarrow> contextA \<Rightarrow> 'w run \<Rightarrow> exc option \<times> 'w run" where
  "jsk_rtt fw ctx s =
     (if not_allowed ctx then (None, s)
      else case for_each (rtt_body fw) [0 ..< 6] (False, [], [], s) of
             (r, message, api_readings, websocket_readings, s') \<Rightarrow> (r, s'))"

subsection \<open>The pattern of a slash command error\<close>

text \<open>
  \<^verbatim>\<open>SLASH_COMMAND_ERROR = re.compile(r"In ((?:\d+\.[a-z]+\.?)+)")\<close>, used with \<^verbatim>\<open>match\<close>, that is
  at the start of the line. One round of the group is digits, a dot, lower-case letters
  and a dot if there is one; every quantifier is greedy and nothing follows the group, so
  the match takes the rounds as long as there is one. Digits are the ASCII digits: in a
  Python \<^verbatim>\<open>str\<close> pattern \<^verbatim>\<open>\d\<close> matches the other decimal digits of Unicode too, and a line
  with such a digit is outside this definition.
\<close>

definition is_digit :: "char \<Rightarrow> bool" where
  "is_digit c \<longleftrightarrow> c \<in> set ''0123456789''"

definition is_lower :: "char \<Rightarrow> bool" where
  "is_lower c \<longleftrightarrow> c \<in> set ''abcdefghijklmnopqrstuvwxyz''"

text \<open>One round \<^verbatim>\<open>\d+\.[a-z]+\.?\<close> at the start of \<open>s\<close>: the text matched and the rest.\<close>

definition match_round :: "string \<Rightarrow> (string \<times> string) option" where
  "match_round s =
     (let ds = takeWhile is_digit s; r1 = dropWhile is_digit s
      in if ds = [] then None
         else case r1 of
                [] \<Rightarrow> None
              | c # r2 \<Rightarrow>
                  if c \<noteq> CHR ''.'' then None
                  else (let ls = takeWhile is_lower r2; r3 = dropWhile is_lower r2
                        in if ls = [] then None
                           else case r3 of
                                  [] \<Rightarrow> Some (ds @ ''.'' @ ls, [])
                                | d # r4 \<Rightarrow>
                                    if d = CHR ''.'' then Some (ds @ ''.'' @ ls @ ''.'', r4)
                                    else Some (ds @ ''.'' @ ls, r3)))"

function match_rounds :: "string \<Rightarrow> string" where
  "match_rounds s =
     (case match_round s of None \<Rightarrow> [] | Some (m, rest) \<Rightarrow> m @ match_rounds rest)"
  by pat_completeness auto
termination
proof (relation "measure length")
  show "wf (measure length)" by simp
next
  fix s :: string and x m rest
  assume a: "match_round s = Some x" "(m, rest) = x"
  have d: "length (dropWhile is_digit s) < length s" if "takeWhile is_digit s \<noteq> []"
  proof -
    have "length (takeWhile is_digit s) + length (dropWhile is_digit s) = length s"
      by (metis length_append takeWhile_dropWhile_id)
    with that show ?thesis by (cases "takeWhile is_digit s") auto
  qed
  have l: "length (dropWhile is_lower t) \<le> length t" for t
    by (rule length_dropWhile_le)
  from a have "length rest < length s"
    unfolding match_round_def Let_def
    using d l
    by (auto split: if_splits list.splits)
       (metis Suc_le_lessD le_trans length_Cons less_or_eq_imp_le list.size(3) not_less_eq_eq zero_less_Suc
          | metis Suc_lessD length_Cons less_trans_Suc not_less_eq le_imp_less_Suc)+
  then show "(rest, s) \<in> measure length" by simp
qed

declare match_rounds.simps [simp del]

text \<open>\<^verbatim>\<open>match = SLASH_COMMAND_ERROR.match(line)\<close>: \<^verbatim>\<open>match.group(1)\<close>, or \<open>None\<close>.\<close>

definition SLASH_COMMAND_ERROR :: "string \<Rightarrow> string option" where
  "SLASH_COMMAND_ERROR line =
     (if take 3 line = ''In '' \<and> match_rounds (drop 3 line) \<noteq> []
      then Some (match_rounds (drop 3 line)) else None)"

subsection \<open>Walking the command tree\<close>

text \<open>\<^verbatim>\<open>xs[i]\<close> of a Python list: a negative index counts from the end.\<close>

definition subscript :: "'a list \<Rightarrow> int \<Rightarrow> exc + 'a" where
  "subscript xs i =
     (if 0 \<le> i \<and> i < int (length xs) then Inr (xs ! nat i)
      else if i < 0 \<and> - i \<le> int (length xs) then Inr (xs ! nat (int (length xs) + i))
      else Inl (Exc IndexError ''list index out of range''))"

text \<open>\<^verbatim>\<open>if pool:\<close> for \<^verbatim>\<open>pool\<close> that is \<^verbatim>\<open>None\<close> or a reference to a list.\<close>

definition truthy :: "store \<Rightarrow> ref option \<Rightarrow> bool" where
  "truthy st pool =
     (case pool of
        None \<Rightarrow> False
      | Some r \<Rightarrow> (case deref st r of Some (PyList xs) \<Rightarrow> xs \<noteq> [] | _ \<Rightarrow> True))"

text \<open>\<^verbatim>\<open>pool[index]\<close>\<close>

definition pool_item :: "store \<Rightarrow> ref option \<Rightarrow> int \<Rightarrow> exc + ref" where
  "pool_item st pool index =
     (case pool of
        None \<Rightarrow> Inl (Exc TypeError ''object is not subscriptable'')
      | Some r \<Rightarrow>
          (case deref st r of
             Some (PyList xs) \<Rightarrow> subscript xs index
           | _ \<Rightarrow> Inl (Exc TypeError ''object is not subscriptable'')))"

text \<open>\<^verbatim>\<open>selected_command.name\<close>\<close>

definition command_name :: "store \<Rightarrow> ref \<Rightarrow> exc + string" where
  "command_name st r =
     (case deref st r of
        Some (AppCommand n ps cb) \<Rightarrow> Inr n
      | Some (AppGroup n cs) \<Rightarrow> Inr n
      | Some (AppContextMenu n cb) \<Rightarrow> Inr n
      | _ \<Rightarrow> Inl (Exc AttributeError ''object has no attribute name''))"

text \<open>\<^verbatim>\<open>selected_command._children.values()\<close> when \<^verbatim>\<open>hasattr(selected_command, '_children')\<close>\<close>

definition command_children :: "store \<Rightarrow> ref \<Rightarrow> ref list option" where
  "command_children st r = (case deref st r of Some (AppGroup n cs) \<Rightarrow> Some cs | _ \<Rightarrow> None)"

text \<open>\<^verbatim>\<open>list(selected_command._params.keys())\<close>, also for \<^verbatim>\<open>selected_command\<close> that is \<^verbatim>\<open>None\<close>\<close>

definition command_params :: "store \<Rightarrow> ref option \<Rightarrow> exc + string list" where
  "command_params st selected_command =
     (case selected_command of
        None \<Rightarrow> Inl (Exc AttributeError ''NoneType object has no attribute _params'')
      | Some r \<Rightarrow>
          (case deref st r of
             Some (AppCommand n ps cb) \<Rightarrow> Inr ps
           | _ \<Rightarrow> Inl (Exc AttributeError ''object has no attribute _params'')))"

text \<open>\<^verbatim>\<open>selected_command.callback\<close> when \<^verbatim>\<open>hasattr(selected_command, 'callback')\<close>. No object of
  the command tree is a \<^verbatim>\<open>commands.Cog\<close>, so \<^verbatim>\<open>to_inspect\<close> stays \<^verbatim>\<open>None\<close> otherwise.\<close>

definition command_callback :: "store \<Rightarrow> ref \<Rightarrow> string option" where
  "command_callback st r =
     (case deref st r of
        Some (AppCommand n ps cb) \<Rightarrow> Some cb
      | Some (AppContextMenu n cb) \<Rightarrow> Some cb
      | _ \<Rightarrow> None)"

text \<open>
  One round of \<^verbatim>\<open>for part_index in range(0, len(parts), 2)\<close>, for \<^verbatim>\<open>part = parts[part_index]\<close>.
  The state is \<^verbatim>\<open>pool\<close>, \<^verbatim>\<open>selected_command\<close>, \<^verbatim>\<open>name\<close> and the store, in which
  \<^verbatim>\<open>list(selected_command._children.values())\<close> is a new list.
\<close>

definition walk_step ::
  "('w, 'p) framework \<Rightarrow> string \<Rightarrow> ref option \<times> ref option \<times> string \<times> store
     \<Rightarrow> exc option \<times> ref option \<times> ref option \<times> string \<times> store" where
  "walk_step fw part st =
     (let (pool, selected_command, name, h) = st in
      case py_int fw part of
        None \<Rightarrow> (Some (Exc ValueError (''invalid literal for int() with base 10: '' @ part)), st)
      | Some index \<Rightarrow>
          if truthy h pool then
            (case pool_item h pool index of
               Inl e \<Rightarrow> (Some e, st)
             | Inr c \<Rightarrow>
                 (case command_name h c of
                    Inl e \<Rightarrow> (Some e, pool, Some c, name, h)
                  | Inr n \<Rightarrow>
                      (case command_children h c of
                         Some cs \<Rightarrow> (let (r, h') = alloc (PyList cs) h
                                     in (None, Some r, Some c, name @ n @ '' '', h'))
                       | None \<Rightarrow> (None, None, Some c, name @ n @ '' '', h))))
          else
            (case command_params h selected_command of
               Inl e \<Rightarrow> (Some e, st)
             | Inr keys \<Rightarrow>
                 (case subscript keys index of
                    Inl e \<Rightarrow> (Some e, st)
                  | Inr param \<Rightarrow>
                      (None, pool, selected_command, name @ ''(parameter: '' @ param @ '') '', h))))"

text \<open>\<^verbatim>\<open>parts[0]\<close>, \<^verbatim>\<open>parts[2]\<close>, ...: the parts that the loop reads.\<close>

fun even_parts :: "'a list \<Rightarrow> 'a list" where
  "even_parts [] = []"
| "even_parts [x] = [x]"
| "even_parts (x # y # zs) = x # even_parts zs"

text \<open>
  The walk of one matched line, from \<^verbatim>\<open>pool = slash_commands\<close> to the end of the loop, with
  the assertion on the number of parts.
\<close>

definition walk ::
  "('w, 'p) framework \<Rightarrow> ref \<Rightarrow> string \<Rightarrow> store
     \<Rightarrow> exc option \<times> ref option \<times> ref option \<times> string \<times> store" where
  "walk fw slash_commands group1 h =
     (let parts = split (CHR ''.'') group1 in
      if length parts mod 2 \<noteq> 0 then (Some (Exc AssertionError []), Some slash_commands, None, [], h)
      else for_each (walk_step fw) (even_parts parts) (Some slash_commands, None, [], h))"

text \<open>\<^verbatim>\<open>\N{MAGNET}\<close>, \<^verbatim>\<open>\N{WARNING SIGN}\<close> and \<^verbatim>\<open>\N{SATELLITE ANTENNA}\<close> in UTF-8.\<close>

definition MAGNET :: string where
  "MAGNET = [CHR 0xF0, CHR 0x9F, CHR 0xA7, CHR 0xB2]"

definition WARNING_SIGN :: string where
  "WARNING_SIGN = [CHR 0xE2, CHR 0x9A, CHR 0xA0]"

definition SATELLITE_ANTENNA :: string where
  "SATELLITE_ANTENNA = [CHR 0xF0, CHR 0x9F, CHR 0x93, CHR 0xA1]"

text \<open>The three notices of the diagnosis.\<close>

definition cause_at :: "string \<Rightarrow> string \<Rightarrow> string \<Rightarrow> string" where
  "cause_at name file_loc line_span =
     MAGNET @ '' This is likely caused by: `'' @ name @ ''` at '' @ file_loc @ '':'' @ line_span"

definition cause_named :: "string \<Rightarrow> string" where
  "cause_named name = MAGNET @ '' This is likely caused by: `'' @ name @ ''`''"

definition cause_unknown :: "exc \<Rightarrow> string" where
  "cause_unknown diag_error =
     MAGNET @ '' Couldn'' @ [CHR 0x27] @ ''t determine cause: '' @ type_name diag_error
       @ '': '' @ exc_str diag_error"

text \<open>
  \<^verbatim>\<open>if selected_command:\<close> after the walk: the inner \<^verbatim>\<open>try\<close>. The result is the line appended,
  or the exception that its \<^verbatim>\<open>except Exception\<close> does not catch.
\<close>

definition name_cause :: "('w, 'p) framework \<Rightarrow> store \<Rightarrow> ref \<Rightarrow> string \<Rightarrow> exc + string" where
  "name_cause fw h selected_command name =
     (let to_inspect = command_callback h selected_command in
      case file_loc_inspection fw to_inspect of
        Inl e \<Rightarrow> if is_Exception e then Inr (cause_named name) else Inl e
      | Inr file_loc \<Rightarrow>
          (case line_span_inspection fw to_inspect of
             Inl e \<Rightarrow> if is_Exception e then Inr (cause_named name) else Inl e
           | Inr line_span \<Rightarrow> Inr (cause_at name file_loc line_span)))"

text \<open>
  The outer \<^verbatim>\<open>try\<close> for one line of the error: the exception that leaves it, if any, the
  lines appended to \<^verbatim>\<open>error_lines\<close> after the line itself, and the store.
\<close>

definition diagnose_line ::
  "('w, 'p) framework \<Rightarrow> ref \<Rightarrow> string \<Rightarrow> store \<Rightarrow> exc option \<times> string list \<times> store" where
  "diagnose_line fw slash_commands line h =
     (case SLASH_COMMAND_ERROR line of
        None \<Rightarrow> (None, [], h)
      | Some group1 \<Rightarrow>
          (case walk fw slash_commands group1 h of
             (Some diag_error, pool, selected_command, name, h') \<Rightarrow>
               if is_Exception diag_error then (None, [cause_unknown diag_error], h')
               else (Some diag_error, [], h')
           | (None, pool, selected_command, name, h') \<Rightarrow>
               (case selected_command of
                  None \<Rightarrow> (None, [], h')
                | Some c \<Rightarrow>
                    (case name_cause fw h' c name of
                       Inl e \<Rightarrow>
                         if is_Exception e then (None, [cause_unknown e], h') else (Some e, [], h')
                     | Inr notice \<Rightarrow> (None, [notice], h')))))"

text \<open>\<^verbatim>\<open>for line in str(error).split("\n")\<close>: the state is \<^verbatim>\<open>error_lines\<close> and the store.\<close>

definition diagnose_body ::
  "('w, 'p) framework \<Rightarrow> ref \<Rightarrow> string \<Rightarrow> string list \<times> store \<Rightarrow> exc option \<times> string list \<times> store" where
  "diagnose_body fw slash_commands line st =
     (let (error_lines, h) = st; (r, notices, h') = diagnose_line fw slash_commands line h
      in (r, error_lines @ [line] @ notices, h'))"

definition diagnose ::
  "('w, 'p) framework \<Rightarrow> ref \<Rightarrow> exc \<Rightarrow> store \<Rightarrow> exc option \<times> string list \<times> store" where
  "diagnose fw slash_commands error h =
     for_each (diagnose_body fw slash_commands) (split (CHR 0x0A) (exc_str error)) ([], h)"

subsection \<open>The sync command\<close>

text \<open>
  \<^verbatim>\<open>guilds_set\<close> is a Python set of \<^verbatim>\<open>None\<close> (global) and guild ids. The set is the list of its
  elements, each once; \<^verbatim>\<open>add\<close> keeps an element that is there. The order in which a Python
  set is listed is not the order of this list, and the sort of \<^verbatim>\<open>jsk_sync\<close> does not depend
  on it (lemma \<open>guilds_sort_order_free\<close> below).
\<close>

definition set_add :: "'a \<Rightarrow> 'a list \<Rightarrow> 'a list" where
  "set_add x xs = (if x \<in> set xs then xs else xs @ [x])"

text \<open>How the loop over \<^verbatim>\<open>targets\<close> ends: with the set, with a message sent and \<^verbatim>\<open>return\<close>, or
  with an exception raised.\<close>

datatype parsed = Parsed "int option list" | Return_after_send string | Raise exc

fun parse_targets ::
  "('w, 'p) framework \<Rightarrow> contextA \<Rightarrow> 'w \<Rightarrow> string list \<Rightarrow> int option list \<Rightarrow> parsed" where
  "parse_targets fw ctx w [] guilds_set = Parsed guilds_set"
| "parse_targets fw ctx w (target # rest) guilds_set =
     (if target = ''$'' then parse_targets fw ctx w rest (set_add None guilds_set)
      else if target = ''*'' then
        parse_targets fw ctx w rest (fold set_add (map Some (guild_command_keys fw w)) guilds_set)
      else if target = ''.'' then
        (case guild_id ctx of
           Some g \<Rightarrow> parse_targets fw ctx w rest (set_add (Some g) guilds_set)
         | None \<Rightarrow> Return_after_send (''Can'' @ [CHR 0x27] @ ''t sync guild commands without guild information''))
      else
        (case py_int fw target of
           Some g \<Rightarrow> parse_targets fw ctx w rest (set_add (Some g) guilds_set)
         | None \<Rightarrow> Raise (Exc BadArgument (target @ '' is not a valid guild ID''))))"

text \<open>\<^verbatim>\<open>guilds.sort(key=lambda g: (g is not None, g))\<close>: the key, compared as Python compares
  tuples; \<open>None\<close> is below every \<open>Some g\<close> in the order of \<open>int option\<close>.\<close>

definition guild_key :: "int option \<Rightarrow> bool \<times> int option" where
  "guild_key g = (g \<noteq> None, g)"

text \<open>The list \<^verbatim>\<open>guilds\<close>, from the set that the loop has made of \<^verbatim>\<open>targets\<close>.\<close>

definition sync_guilds :: "string list \<Rightarrow> int option list \<Rightarrow> int option list" where
  "sync_guilds targets guilds_set =
     sort_key guild_key (if targets = [] then set_add None guilds_set else guilds_set)"

text \<open>\<^verbatim>\<open>if guild:\<close> for a guild that is \<^verbatim>\<open>None\<close> or an integer.\<close>

definition guild_truthy :: "int option \<Rightarrow> bool" where
  "guild_truthy guild \<longleftrightarrow> guild \<noteq> None \<and> guild \<noteq> Some 0"

definition warning_line :: "int option \<Rightarrow> string \<Rightarrow> string" where
  "warning_line guild error_text =
     (if guild_truthy guild
      then WARNING_SIGN @ '' `'' @ str_int (the guild) @ ''`: '' @ error_text
      else WARNING_SIGN @ '' Global: '' @ error_text)"

definition synced_line :: "int option \<Rightarrow> nat \<Rightarrow> string" where
  "synced_line guild n =
     (if guild_truthy guild
      then SATELLITE_ANTENNA @ '' `'' @ str_int (the guild) @ ''` Synced '' @ str_nat n @ '' guild commands''
      else SATELLITE_ANTENNA @ '' Synced '' @ str_nat n @ '' global commands'')"

text \<open>The first exception of \<^verbatim>\<open>[AppCommand(data=d, state=ctx._state) for d in data]\<close>.\<close>

fun first_failure :: "('a \<Rightarrow> exc option) \<Rightarrow> 'a list \<Rightarrow> exc option" where
  "first_failure f [] = None"
| "first_failure f (d # ds) = (case f d of Some e \<Rightarrow> Some e | None \<Rightarrow> first_failure f ds)"

text \<open>The event of the upsert call for a guild of the list.\<close>

definition upsert_event :: "int option \<Rightarrow> int option \<Rightarrow> string list \<Rightarrow> event" where
  "upsert_event app_id guild payload =
     (case guild of None \<Rightarrow> UpsertGlobal app_id payload | Some g \<Rightarrow> UpsertGuild app_id g payload)"

text \<open>
  The body of \<^verbatim>\<open>for guild in guilds\<close>, in three steps. First the commands of the guild:
  the list that \<^verbatim>\<open>_get_all_commands\<close> returns is a new object of the store, and the
  payload is \<^verbatim>\<open>to_dict\<close> of each command. The result is \<^verbatim>\<open>slash_commands\<close>, the payload and
  the run.
\<close>

definition fetch_commands ::
  "('w, 'p) framework \<Rightarrow> int option \<Rightarrow> 'w run \<Rightarrow> ref \<times> string list \<times> 'w run" where
  "fetch_commands fw guild s =
     (let object = (if guild_truthy guild then guild else None);
          commands = get_all_commands fw object (world s);
          (slash_commands, h1) = alloc (PyList commands) (heap s)
      in (slash_commands, map (to_dict fw h1) commands,
          s\<lparr>trace := trace s @ [GetAllCommands object], heap := h1\<rparr>))"

text \<open>The \<^verbatim>\<open>try\<close> block: the upsert call and the \<^verbatim>\<open>AppCommand\<close> objects made of its data. The
  result is the exception raised in the block, or \<^verbatim>\<open>len(synced)\<close>.\<close>

definition upsert_commands ::
  "('w, 'p) framework \<Rightarrow> int option \<Rightarrow> string list \<Rightarrow> 'w run \<Rightarrow> (exc + nat) \<times> 'w run" where
  "upsert_commands fw guild payload s =
     (let app_id = application_id fw (world s);
          (r, w') = (case guild of
                       None \<Rightarrow> bulk_upsert_global fw app_id payload (world s)
                     | Some g \<Rightarrow> bulk_upsert_guild fw app_id g payload (world s));
          s' = called (upsert_event app_id guild payload) w' s
      in case r of
           Inl e \<Rightarrow> (Inl e, s')
         | Inr data \<Rightarrow>
             (case first_failure (app_command fw) data of
                Some e \<Rightarrow> (Inl e, s')
              | None \<Rightarrow> (Inr (length data), s')))"

text \<open>
  The \<^verbatim>\<open>except discord.HTTPException\<close> and \<^verbatim>\<open>else\<close> clauses: an exception of that class is
  diagnosed and reported in a line of the paginator, an exception of another class leaves
  the handler, and a success is reported.
\<close>

definition report_sync ::
  "('w, 'p) framework \<Rightarrow> int option \<Rightarrow> ref \<Rightarrow> exc + nat \<Rightarrow> 'p \<times> 'w run
     \<Rightarrow> exc option \<times> 'p \<times> 'w run" where
  "report_sync fw guild slash_commands synced st =
     (let (pg, s) = st in
      case synced of
        Inl error \<Rightarrow>
          if is_HTTPException error then
            (case diagnose fw slash_commands error (heap s) of
               (Some e, error_lines, h') \<Rightarrow> (Some e, pg, s\<lparr>heap := h'\<rparr>)
             | (None, error_lines, h') \<Rightarrow>
                 paginator_add_line fw (warning_line guild (join nl error_lines))
                   (pg, s\<lparr>heap := h'\<rparr>))
          else (Some error, st)
      | Inr n \<Rightarrow> paginator_add_line fw (synced_line guild n) st)"

definition sync_body ::
  "('w, 'p) framework \<Rightarrow> int option \<Rightarrow> 'p \<times> 'w run \<Rightarrow> exc option \<times> 'p \<times> 'w run" where
  "sync_body fw guild st =
     (let (pg, s) = st;
          (slash_commands, payload, s1) = fetch_commands fw guild s;
          (synced, s2) = upsert_commands fw guild payload s1
      in report_sync fw guild slash_commands synced (pg, s2))"

text \<open>\<^verbatim>\<open>if not self.bot.application_id:\<close>\<close>

definition no_application_id :: "('w, 'p) framework \<Rightarrow> 'w \<Rightarrow> bool" where
  "no_application_id fw w \<longleftrightarrow> application_id fw w = None \<or> application_id fw w = Some 0"

definition jsk_sync ::
  "('w, 'p) framework \<Rightarrow> contextA \<Rightarrow> string list \<Rightarrow> 'w run \<Rightarrow> exc option \<times> 'w run" where
  "jsk_sync fw ctx targets s =
     (if not_allowed ctx then (None, s)
      else if no_application_id fw (world s)
      then ctx_send fw ''Cannot sync when application info not fetched'' s
      else case parse_targets fw ctx (world s) targets [] of
             Return_after_send text \<Rightarrow> ctx_send fw text s
           | Raise e \<Rightarrow> (Some e, s)
           | Parsed guilds_set \<Rightarrow>
               (case for_each (sync_body fw) (sync_guilds targets guilds_set) (new_paginator fw, s) of
                  (Some e, pg, s') \<Rightarrow> (Some e, s')
                | (None, pg, s') \<Rightarrow> send_pages fw pg s'))"

subsection \<open>A framework to run the handlers on\<close>

text \<open>
  A small bot for the examples. Its world is the list of loaded extensions. The extension
  \<^verbatim>\<open>broken\<close> fails to load, \<^verbatim>\<open>verbose\<close> fails with a text of 2000 characters, the load of
  \<^verbatim>\<open>interrupted\<close> ends in a \<^verbatim>\<open>KeyboardInterrupt\<close>, an extension that is not loaded fails to
  unload, and the guild \<open>3\<close> refuses its commands with an error that names the first child
  of the second command. \<open>decimal\<close> reads an integer as \<^verbatim>\<open>int\<close> does, for a string of ASCII
  digits with a sign or without.

  The paginator is discord.py's \<^verbatim>\<open>commands.Paginator\<close> as the module makes it,
  \<^verbatim>\<open>Paginator(prefix='', suffix='')\<close> with \<^verbatim>\<open>max_size=2000\<close> and \<^verbatim>\<open>linesep='\n'\<close>: its state is
  \<^verbatim>\<open>_pages\<close>, \<^verbatim>\<open>_current_page\<close> and \<^verbatim>\<open>_count\<close>; \<^verbatim>\<open>add_line\<close> raises \<^verbatim>\<open>RuntimeError\<close> for a line of more
  than \<open>2000 - 2\<close> characters, closes the page that the line would fill past 2000, and is
  called with \<^verbatim>\<open>empty=True\<close>; \<^verbatim>\<open>pages\<close> closes a page that holds a line. The examples are ASCII,
  where the bytes of a line are its characters.
\<close>

record Paginator =
  p_pages :: "string list"
  p_current_page :: "string list"
  p_count :: nat

definition Paginator_new :: Paginator where
  "Paginator_new = \<lparr>p_pages = [], p_current_page = [[]], p_count = 1\<rparr>"

definition close_page :: "Paginator \<Rightarrow> Paginator" where
  "close_page p =
     \<lparr>p_pages = p_pages p @ [join [CHR 0x0A] (p_current_page p @ [[]])],
      p_current_page = [[]], p_count = 1\<rparr>"

definition Paginator_add_line :: "string \<Rightarrow> Paginator \<Rightarrow> exc + Paginator" where
  "Paginator_add_line line p =
     (if length line > 1998
      then Inl (Exc (OtherException ''RuntimeError'') ''Line exceeds maximum page size 1998'')
      else let p1 = (if p_count p + length line + 1 > 2000 then close_page p else p)
           in Inr (p1\<lparr>p_current_page := p_current_page p1 @ [line, []],
                      p_count := p_count p1 + length line + 1 + 1\<rparr>))"

definition Paginator_pages :: "Paginator \<Rightarrow> string list" where
  "Paginator_pages p = (if length (p_current_page p) > 1 then p_pages (close_page p) else p_pages p)"

definition digits_value :: "string \<Rightarrow> nat" where
  "digits_value ds = foldl (\<lambda>a c. 10 * a + (of_char c - 48)) 0 ds"

definition decimal :: "string \<Rightarrow> int option" where
  "decimal t =
     (case t of
        [] \<Rightarrow> None
      | c # ds \<Rightarrow>
          if (c = CHR ''-'' \<or> c = CHR ''+'') \<and> ds \<noteq> [] \<and> list_all is_digit ds
          then Some (if c = CHR ''-'' then - int (digits_value ds) else int (digits_value ds))
          else if list_all is_digit t then Some (int (digits_value t))
          else None)"

definition demo_error :: exc where
  "demo_error = Exc HTTPException (''400 Bad Request (error code: 50035): Invalid Form Body''
     @ [CHR 0x0A] @ ''In 1.options.0.name: Must be lower case'')"

definition demo_store :: store where
  "demo_store =
     [AppCommand ''ping'' [] ''ping_callback'',
      AppGroup ''config'' [2],
      AppCommand ''set'' [''Key'', ''value''] ''set_callback'']"

definition demo :: "(string list, Paginator) framework" where
  "demo = \<lparr>
     extension_loaded = (\<lambda>n w. n \<in> set w),
     load_extension = (\<lambda>n w.
       if n = ''broken'' then (Some (Exc (OtherException ''ExtensionFailed'') ''setup failed''), w)
       else if n = ''verbose''
       then (Some (Exc (OtherException ''ExtensionFailed'') (replicate 2000 (CHR ''x''))), w)
       else if n = ''interrupted'' then (Some (Exc (NonException ''KeyboardInterrupt'') []), w)
       else (None, w @ [n])),
     reload_extension = (\<lambda>n w. (None, w)),
     unload_extension = (\<lambda>n w.
       if n \<in> set w then (None, removeAll n w)
       else (Some (Exc (OtherException ''ExtensionNotLoaded'') n), w)),
     format_exception = (\<lambda>e k. type_name e @ '': '' @ exc_str e),
     new_paginator = Paginator_new,
     add_line = Paginator_add_line,
     pages = Paginator_pages,
     send = (\<lambda>text w. (None, w)),
     edit = (\<lambda>text w. (None, w)),
     close = (\<lambda>w. (None, w)),
     application_info = (\<lambda>w. (Inr 42, w)),
     application_id = (\<lambda>w. Some 42),
     guild_command_keys = (\<lambda>w. [7, 3]),
     get_all_commands = (\<lambda>g w. [0, 1]),
     to_dict = (\<lambda>st r. case command_name st r of Inl e \<Rightarrow> [] | Inr n \<Rightarrow> n),
     bulk_upsert_global = (\<lambda>a payload w. (Inr payload, w)),
     bulk_upsert_guild = (\<lambda>a g payload w. if g = 3 then (Inl demo_error, w) else (Inr payload, w)),
     app_command = (\<lambda>d. None),
     py_int = decimal,
     file_loc_inspection = (\<lambda>cb. case cb of None \<Rightarrow> Inl (Exc TypeError ''not a module, class or function'')
                                | Some f \<Rightarrow> Inr ''./bot.py''),
     line_span_inspection = (\<lambda>cb. case cb of None \<Rightarrow> Inl (Exc TypeError ''not a module, class or function'')
                                | Some f \<Rightarrow> Inr ''10-20''),
     perf_counter = (\<lambda>w. (0, w)),
     latency = (\<lambda>w. 0),
     mean_stddev = (\<lambda>xs. (0, 0)),
     fmt_2f = (\<lambda>x. ''0.00'')
   \<rparr>"

text \<open>The start of a run: nothing called yet.\<close>

definition start :: "'w \<Rightarrow> store \<Rightarrow> 'w run" where
  "start w h = \<lparr>world = w, trace = [], heap = h\<rparr>"

text \<open>The two users of the examples: one of the two allowed, outside a guild, and one who is
  not allowed. \<^verbatim>\<open>jsk_load\<close> alone reads \<^verbatim>\<open>invoked_with\<close>, to tell \<^verbatim>\<open>reload\<close>.\<close>

definition owner :: contextA where
  "owner = \<lparr>author_id = 271140080188522497, invoked_with = ''sync'', guild_id = None\<rparr>"

definition stranger :: contextA where
  "stranger = \<lparr>author_id = 1, invoked_with = ''sync'', guild_id = Some 5\<rparr>"

subsection \<open>What a run did\<close>

text \<open>The texts sent to the channel, the lines given to the paginator, and the targets of
  the upsert calls (\<open>None\<close> for the global one), each in the order of the trace.\<close>

fun sent :: "event list \<Rightarrow> string list" where
  "sent [] = []"
| "sent (Send text # tr) = text # sent tr"
| "sent (ev # tr) = sent tr"

fun lines_added :: "event list \<Rightarrow> string list" where
  "lines_added [] = []"
| "lines_added (AddLine line # tr) = line # lines_added tr"
| "lines_added (ev # tr) = lines_added tr"

fun sync_calls :: "event list \<Rightarrow> int option list" where
  "sync_calls [] = []"
| "sync_calls (UpsertGlobal app_id payload # tr) = None # sync_calls tr"
| "sync_calls (UpsertGuild app_id g payload # tr) = Some g # sync_calls tr"
| "sync_calls (ev # tr) = sync_calls tr"

fun is_Send :: "event \<Rightarrow> bool" where
  "is_Send (Send text) = True"
| "is_Send ev = False"

subsection \<open>The words of the properties\<close>

text \<open>The order of the targets in the words of the spec: the global one first, then the
  guild ids ascending.\<close>

fun global_first_ascending :: "int option \<Rightarrow> int option \<Rightarrow> bool" where
  "global_first_ascending None (Some j) = True"
| "global_first_ascending (Some i) (Some j) = (i < j)"
| "global_first_ascending g None = False"

text \<open>The conditions under which the loop over the targets stops the command.\<close>

definition bad_target :: "('w, 'p) framework \<Rightarrow> contextA \<Rightarrow> string \<Rightarrow> bool" where
  "bad_target fw ctx target \<longleftrightarrow>
     (if target = ''$'' \<or> target = ''*'' then False
      else if target = ''.'' then guild_id ctx = None
      else py_int fw target = None)"

text \<open>The guilds that one target names.\<close>

definition target_guilds :: "('w, 'p) framework \<Rightarrow> contextA \<Rightarrow> 'w \<Rightarrow> string \<Rightarrow> int option set" where
  "target_guilds fw ctx w target =
     (if target = ''$'' then {None}
      else if target = ''*'' then Some ` set (guild_command_keys fw w)
      else if target = ''.'' then Some ` set_option (guild_id ctx)
      else Some ` set_option (py_int fw target))"

text \<open>The list \<^verbatim>\<open>guilds\<close> of an invocation, empty when the loop over the targets stops the
  command.\<close>

definition sync_order :: "('w, 'p) framework \<Rightarrow> contextA \<Rightarrow> 'w \<Rightarrow> string list \<Rightarrow> int option list" where
  "sync_order fw ctx w targets =
     (case parse_targets fw ctx w targets [] of
        Parsed guilds_set \<Rightarrow> sync_guilds targets guilds_set
      | Return_after_send text \<Rightarrow> []
      | Raise e \<Rightarrow> [])"

subsection \<open>The reports of the extensions\<close>

text \<open>
  The call of an extension method as the trace records it is the extension with its
  outcome: \<open>extension_of\<close> and \<open>call_result\<close> read the two, and a failure is \<open>caught\<close> when
  \<^verbatim>\<open>except Exception\<close> catches it.
\<close>

definition extension_of :: "event \<Rightarrow> string" where
  "extension_of call =
     (case call of
        LoadExtension n r \<Rightarrow> n
      | ReloadExtension n r \<Rightarrow> n
      | UnloadExtension n r \<Rightarrow> n
      | _ \<Rightarrow> [])"

definition call_result :: "event \<Rightarrow> exc option" where
  "call_result call =
     (case call of
        LoadExtension n r \<Rightarrow> r
      | ReloadExtension n r \<Rightarrow> r
      | UnloadExtension n r \<Rightarrow> r
      | _ \<Rightarrow> None)"

definition caught :: "event \<Rightarrow> bool" where
  "caught call \<longleftrightarrow> (case call_result call of None \<Rightarrow> True | Some exc \<Rightarrow> is_Exception exc)"

text \<open>The events that are the call of an extension method.\<close>

fun is_call :: "event \<Rightarrow> bool" where
  "is_call (LoadExtension n r) = True"
| "is_call (ReloadExtension n r) = True"
| "is_call (UnloadExtension n r) = True"
| "is_call ev = False"

text \<open>The line of the report for an extension whose method ended with \<open>r\<close>, and for a call:
  the failure line holds the exception formatted with a traceback of depth one.\<close>

definition report :: "('w, 'p) framework \<Rightarrow> string \<Rightarrow> string \<Rightarrow> exc option \<Rightarrow> string" where
  "report fw icon extension r =
     (case r of
        None \<Rightarrow> success_line icon extension
      | Some exc \<Rightarrow> failure_line icon extension (format_exception fw exc 1))"

definition report_line :: "('w, 'p) framework \<Rightarrow> event \<Rightarrow> string" where
  "report_line fw call =
     (case call of
        LoadExtension n r \<Rightarrow> report fw load_icon n r
      | ReloadExtension n r \<Rightarrow> report fw reload_icon n r
      | UnloadExtension n r \<Rightarrow> report fw unload_icon n r
      | _ \<Rightarrow> [])"

text \<open>
  The method call that \<^verbatim>\<open>jsk_load\<close> and \<^verbatim>\<open>jsk_unload\<close> make for an extension in the world
  \<open>w\<close>, with its outcome, and the world after it.
\<close>

definition load_call :: "('w, 'p) framework \<Rightarrow> string \<Rightarrow> 'w \<Rightarrow> event \<times> 'w" where
  "load_call fw extension w =
     (if extension_loaded fw extension w
      then (let (r, w') = reload_extension fw extension w in (ReloadExtension extension r, w'))
      else (let (r, w') = load_extension fw extension w in (LoadExtension extension r, w')))"

definition unload_call :: "('w, 'p) framework \<Rightarrow> string \<Rightarrow> 'w \<Rightarrow> event \<times> 'w" where
  "unload_call fw extension w =
     (let (r, w') = unload_extension fw extension w in (UnloadExtension extension r, w'))"

text \<open>
  The calls for a list of extensions, one after the other from the world \<open>w\<close>, when nothing
  ends the loop before its end; the world after them; and the events of such a loop: each
  call, followed by its report given to the paginator.
\<close>

fun calls :: "(string \<Rightarrow> 'w \<Rightarrow> event \<times> 'w) \<Rightarrow> string list \<Rightarrow> 'w \<Rightarrow> event list" where
  "calls call [] w = []"
| "calls call (extension # rest) w = fst (call extension w) # calls call rest (snd (call extension w))"

fun world_after :: "(string \<Rightarrow> 'w \<Rightarrow> event \<times> 'w) \<Rightarrow> string list \<Rightarrow> 'w \<Rightarrow> 'w" where
  "world_after call [] w = w"
| "world_after call (extension # rest) w = world_after call rest (snd (call extension w))"

definition round_events :: "('w, 'p) framework \<Rightarrow> event list \<Rightarrow> event list" where
  "round_events fw cs = concat (map (\<lambda>call. [call, AddLine (report_line fw call)]) cs)"

text \<open>
  Conditions on one run: the paginator \<open>pg\<close> takes the lines one after the other, and the
  messages are sent one after the other from the world \<open>w\<close>. \<open>fill\<close> is the paginator after
  the lines.
\<close>

fun takes :: "('w, 'p) framework \<Rightarrow> string list \<Rightarrow> 'p \<Rightarrow> bool" where
  "takes fw [] pg \<longleftrightarrow> True"
| "takes fw (line # rest) pg \<longleftrightarrow>
     (case add_line fw line pg of Inl e \<Rightarrow> False | Inr pg' \<Rightarrow> takes fw rest pg')"

fun delivered :: "('w, 'p) framework \<Rightarrow> string list \<Rightarrow> 'w \<Rightarrow> bool" where
  "delivered fw [] w \<longleftrightarrow> True"
| "delivered fw (page # rest) w \<longleftrightarrow>
     (case send fw page w of (None, w') \<Rightarrow> delivered fw rest w' | (Some e, w') \<Rightarrow> False)"

definition fill :: "('w, 'p) framework \<Rightarrow> string list \<Rightarrow> 'p \<Rightarrow> 'p" where
  "fill fw lines pg = fold (\<lambda>line pg. case add_line fw line pg of Inl e \<Rightarrow> pg | Inr pg' \<Rightarrow> pg') lines pg"

subsection \<open>The exceptions and the reports of the sync command\<close>

text \<open>
  The exceptions that the handlers do not handle, for a framework: what a call outside any
  \<^verbatim>\<open>try\<close> raises (sending, editing, closing, the application info, a line of the paginator),
  what an extension method or an inspection raises that is no instance of \<^verbatim>\<open>Exception\<close>,
  and what the \<^verbatim>\<open>try\<close> block of the sync command raises that is no
  \<^verbatim>\<open>discord.HTTPException\<close>.
\<close>

definition unguarded :: "('w, 'p) framework \<Rightarrow> exc \<Rightarrow> bool" where
  "unguarded fw e \<longleftrightarrow>
     (\<exists>t w. fst (send fw t w) = Some e) \<or>
     (\<exists>t w. fst (edit fw t w) = Some e) \<or>
     (\<exists>w. fst (close fw w) = Some e) \<or>
     (\<exists>w. fst (application_info fw w) = Inl e) \<or>
     (\<exists>line pg. add_line fw line pg = Inl e) \<or>
     (\<not> is_Exception e \<and>
        ((\<exists>n w. fst (load_extension fw n w) = Some e) \<or>
         (\<exists>n w. fst (reload_extension fw n w) = Some e) \<or>
         (\<exists>n w. fst (unload_extension fw n w) = Some e) \<or>
         (\<exists>to_inspect. file_loc_inspection fw to_inspect = Inl e) \<or>
         (\<exists>to_inspect. line_span_inspection fw to_inspect = Inl e))) \<or>
     (\<not> is_HTTPException e \<and>
        ((\<exists>app_id payload w. fst (bulk_upsert_global fw app_id payload w) = Inl e) \<or>
         (\<exists>app_id g payload w. fst (bulk_upsert_guild fw app_id g payload w) = Inl e) \<or>
         (\<exists>d. app_command fw d = Some e)))"

text \<open>
  The round of the sync command for one guild, from the world \<open>w\<close> and the store \<open>h\<close>:
  \<^verbatim>\<open>slash_commands\<close>, what the \<^verbatim>\<open>try\<close> block ends with, and the world and the store after it.
\<close>

definition sync_round ::
  "('w, 'p) framework \<Rightarrow> int option \<Rightarrow> 'w \<Rightarrow> store \<Rightarrow> ref \<times> (exc + nat) \<times> 'w \<times> store" where
  "sync_round fw guild w h =
     (let (slash_commands, payload, s1) = fetch_commands fw guild (start w h);
          (synced, s2) = upsert_commands fw guild payload s1
      in (slash_commands, synced, world s2, heap s2))"

text \<open>
  What the round reports: the line for the paginator, or the exception that leaves the
  handler before any line; with the world and the store after the round.
\<close>

definition sync_report ::
  "('w, 'p) framework \<Rightarrow> int option \<Rightarrow> 'w \<Rightarrow> store \<Rightarrow> (exc + string) \<times> 'w \<times> store" where
  "sync_report fw guild w h =
     (let (slash_commands, synced, w', h') = sync_round fw guild w h in
      case synced of
        Inr n \<Rightarrow> (Inr (synced_line guild n), w', h')
      | Inl error \<Rightarrow>
          if is_HTTPException error
          then (case diagnose fw slash_commands error h' of
                  (None, error_lines, h'') \<Rightarrow>
                    (Inr (warning_line guild (join nl error_lines)), w', h'')
                | (Some e, error_lines, h'') \<Rightarrow> (Inl e, w', h''))
          else (Inl error, w', h'))"

text \<open>The lines of the rounds for a list of guilds, one after the other, up to the first
  round that ends in an exception.\<close>

fun sync_reports ::
  "('w, 'p) framework \<Rightarrow> int option list \<Rightarrow> 'w \<Rightarrow> store \<Rightarrow> string list" where
  "sync_reports fw [] w h = []"
| "sync_reports fw (guild # guilds) w h =
     (case sync_report fw guild w h of
        (Inr line, w', h') \<Rightarrow> line # sync_reports fw guilds w' h'
      | (Inl e, w', h') \<Rightarrow> [])"

section \<open>Properties\<close>

subsection \<open>Loops and traces\<close>

lemma for_each_append:
  "for_each body (xs @ ys) st =
     (case for_each body xs st of
        (Some e, st') \<Rightarrow> (Some e, st')
      | (None, st') \<Rightarrow> for_each body ys st')"
  by (induction xs arbitrary: st) (auto split: prod.splits option.splits)

lemma for_each_invariant:
  assumes "P st"
    and "\<And>x st. P st \<Longrightarrow> P (snd (body x st))"
  shows "P (snd (for_each body xs st))"
  using assms(1)
proof (induction xs arbitrary: st)
  case Nil
  then show ?case by simp
next
  case (Cons x xs)
  have step: "P (snd (body x st))" by (rule assms(2) [OF Cons.prems])
  show ?case
  proof (cases "body x st")
    case (Pair r st')
    with step have "P st'" by simp
    then show ?thesis using Pair Cons.IH [of st'] by (cases r) simp_all
  qed
qed

lemma for_each_exception:
  assumes "\<And>x st e. fst (body x st) = Some e \<Longrightarrow> Q e"
    and "fst (for_each body xs st) = Some e"
  shows "Q e"
  using assms(2)
proof (induction xs arbitrary: st)
  case Nil
  then show ?case by simp
next
  case (Cons x xs)
  obtain r st' where b: "body x st = (r, st')"
    by (cases "body x st") auto
  show ?case
  proof (cases r)
    case None
    with Cons.prems b have "fst (for_each body xs st') = Some e" by simp
    then show ?thesis by (rule Cons.IH)
  next
    case (Some e')
    with Cons.prems b have "e' = e" by simp
    with assms(1) [of x st e'] b Some show ?thesis by simp
  qed
qed

lemma for_each_returns:
  assumes "\<And>x st. fst (body x st) = None"
  shows "fst (for_each body xs st) = None"
proof (induction xs arbitrary: st)
  case Nil
  show ?case by simp
next
  case (Cons x xs)
  obtain r st' where b: "body x st = (r, st')" by (cases "body x st") auto
  with assms [of x st] have "r = None" by simp
  with b Cons.IH [of st'] show ?case by simp
qed

lemma sent_append: "sent (a @ b) = sent a @ sent b"
  by (induction a rule: sent.induct) simp_all

lemma lines_added_append: "lines_added (a @ b) = lines_added a @ lines_added b"
  by (induction a rule: lines_added.induct) simp_all

lemma sync_calls_append: "sync_calls (a @ b) = sync_calls a @ sync_calls b"
  by (induction a rule: sync_calls.induct) simp_all

lemma lines_added_sends [simp]: "lines_added (map Send ps) = []"
  by (induction ps) simp_all

lemma sent_sends [simp]: "sent (map Send ps) = ps"
  by (induction ps) simp_all

lemma filter_sends [simp]: "filter (\<lambda>ev. \<not> is_Send ev) (map Send ps) = []"
  by (induction ps) simp_all

lemma start_simps [simp]:
  "world (start w h) = w" "trace (start w h) = []" "heap (start w h) = h"
  by (simp_all add: start_def)

lemma ctx_send_trace:
  "trace (snd (ctx_send fw text s)) = trace s @ [Send text]"
  by (simp add: ctx_send_def called_def split: prod.splits)

lemma ctx_send_heap:
  "heap (snd (ctx_send fw text s)) = heap s"
  by (simp add: ctx_send_def called_def split: prod.splits)

lemma send_loop_sent:
  "\<exists>k. k \<le> length ps \<and>
        trace (snd (for_each (ctx_send fw) ps s)) = trace s @ map Send (take k ps) \<and>
        heap (snd (for_each (ctx_send fw) ps s)) = heap s \<and>
        (fst (for_each (ctx_send fw) ps s) = None \<longrightarrow> k = length ps)"
proof (induction ps arbitrary: s)
  case Nil
  show ?case by (intro exI [of _ 0]) simp
next
  case (Cons p ps)
  obtain r s1 where c: "ctx_send fw p s = (r, s1)"
    by (cases "ctx_send fw p s") auto
  have t: "trace s1 = trace s @ [Send p]" and h: "heap s1 = heap s"
    using ctx_send_trace [of fw p s] ctx_send_heap [of fw p s] c by simp_all
  show ?case
  proof (cases r)
    case None
    from Cons.IH [of s1] obtain k where
      k: "k \<le> length ps"
      and t': "trace (snd (for_each (ctx_send fw) ps s1)) = trace s1 @ map Send (take k ps)"
      and h': "heap (snd (for_each (ctx_send fw) ps s1)) = heap s1"
      and f: "fst (for_each (ctx_send fw) ps s1) = None \<longrightarrow> k = length ps"
      by (elim exE conjE)
    have step: "for_each (ctx_send fw) (p # ps) s = for_each (ctx_send fw) ps s1"
      using c None by simp
    show ?thesis
      unfolding step
      by (intro exI [of _ "Suc k"] conjI) (use k t t' h h' f in simp_all)
  next
    case (Some e)
    have step: "for_each (ctx_send fw) (p # ps) s = (Some e, s1)"
      using c Some by simp
    show ?thesis
      unfolding step
      by (intro exI [of _ "Suc 0"] conjI) (use t h in simp_all)
  qed
qed

lemma send_pages_sync_calls:
  "sync_calls (trace (snd (send_pages fw pg s))) = sync_calls (trace s)"
  unfolding send_pages_def
  by (rule for_each_invariant [where P = "\<lambda>s'. sync_calls (trace s') = sync_calls (trace s)"])
     (simp_all add: ctx_send_trace sync_calls_append)

lemma send_pages_heap: "heap (snd (send_pages fw pg s)) = heap s"
  unfolding send_pages_def
  by (rule for_each_invariant [where P = "\<lambda>s'. heap s' = heap s"])
     (simp_all add: ctx_send_heap)

lemma send_pages_trace: "prefix (trace s) (trace (snd (send_pages fw pg s)))"
  unfolding send_pages_def
  by (rule for_each_invariant [where P = "\<lambda>s'. prefix (trace s) (trace s')"])
     (simp_all add: ctx_send_trace)

lemma paginator_add_line_trace:
  "trace (snd (snd (paginator_add_line fw line (pg, s)))) = trace s @ [AddLine line]"
  by (simp add: paginator_add_line_def Let_def split: sum.splits)

lemma paginator_add_line_heap:
  "heap (snd (snd (paginator_add_line fw line (pg, s)))) = heap s"
  by (simp add: paginator_add_line_def Let_def split: sum.splits)

subsection \<open>The framework of the examples\<close>

lemma owner_allowed: "\<not> not_allowed owner"
  by (simp add: not_allowed_def owner_def)

lemma demo_has_application_id: "\<not> no_application_id demo w"
  by (simp add: no_application_id_def demo_def)

lemmas sync_eval =
  jsk_sync_def no_application_id_def not_allowed_def owner_def set_add_def sync_guilds_def
  guild_key_def sync_body_def fetch_commands_def upsert_commands_def report_sync_def
  upsert_event_def guild_truthy_def alloc_def paginator_add_line_def send_pages_def
  ctx_send_def called_def start_def synced_line_def warning_line_def command_name_def
  deref_def demo_store_def SATELLITE_ANTENNA_def WARNING_SIGN_def str_int_def
  decimal_def digits_value_def is_digit_def Let_def Paginator_new_def Paginator_add_line_def
  Paginator_pages_def close_page_def

lemmas diagnose_eval =
  diagnose_def diagnose_body_def diagnose_line_def SLASH_COMMAND_ERROR_def match_rounds.simps
  match_round_def is_digit_def is_lower_def walk_def walk_step_def truthy_def pool_item_def
  subscript_def command_name_def command_children_def command_params_def command_callback_def
  name_cause_def cause_at_def cause_named_def cause_unknown_def deref_def alloc_def
  demo_store_def decimal_def digits_value_def Let_def

subsection \<open>The gate\<close>

text \<open>
  The five handlers that have the gate return at once for a user who is not one of the
  two: the run is as it was, so nothing was sent and nothing was called.
\<close>

lemma gated_handlers_silent:
  assumes "not_allowed ctx"
  shows "jsk_load fw ctx extensions s = (None, s)"
    and "jsk_unload fw ctx extensions s = (None, s)"
    and "jsk_shutdown fw ctx s = (None, s)"
    and "jsk_rtt fw ctx s = (None, s)"
    and "jsk_sync fw ctx targets s = (None, s)"
  using assms
  by (simp_all add: jsk_load_def jsk_unload_def jsk_shutdown_def jsk_rtt_def jsk_sync_def)

text \<open>
  C1. Every handler is silent for a user who is not one of the two allowed: it sends
  nothing and calls nothing. \<^verbatim>\<open>jsk_invite\<close> is not: for the user \<open>1\<close> it asks the bot for
  the application info and sends the invite link.
\<close>

theorem jsk_invite_answers_stranger:
  "not_allowed stranger \<and>
   jsk_invite demo stranger [] (start [] []) =
     (None, \<lparr>world = [], trace = [ApplicationInfo, Send (invite_text 42)], heap = []\<rparr>)"
  by (simp add: not_allowed_def stranger_def jsk_invite_def demo_def start_def ctx_send_def
      called_def)

subsection \<open>The invite link\<close>

text \<open>
  C10. The message of the invite command depends on the application id alone: whatever
  the permission names and the context, the handler asks for the application info and
  sends the link made of the id and of the fixed value \<^verbatim>\<open>permissions=8\<close>, and two
  invocations that differ only in the permission names end in the same result.
\<close>

theorem jsk_invite_ignores_perms:
  "jsk_invite fw ctx perms s = jsk_invite fw ctx perms' s \<and>
   sent (trace (snd (jsk_invite fw ctx perms (start w h)))) =
     (case fst (application_info fw w) of Inl e \<Rightarrow> [] | Inr client_id \<Rightarrow> [invite_text client_id]) \<and>
   invite_text client_id =
     ''Link to invite this bot:'' @ [CHR 0x0A]
       @ ''https://discordapp.com/oauth2/authorize?client_id='' @ str_int client_id
       @ ''&permissions=8&scope=bot''"
  by (simp add: jsk_invite_def invite_text_def start_def ctx_send_def called_def
      split: prod.splits sum.splits)

subsection \<open>The targets of the sync command\<close>

lemma distinct_set_add: "distinct xs \<Longrightarrow> distinct (set_add x xs)"
  by (simp add: set_add_def)

lemma distinct_fold_set_add: "distinct xs \<Longrightarrow> distinct (fold set_add ys xs)"
  by (induction ys arbitrary: xs) (simp_all add: distinct_set_add)

lemma set_set_add: "set (set_add x xs) = insert x (set xs)"
  by (auto simp: set_add_def)

lemma set_fold_set_add: "set (fold set_add ys xs) = set xs \<union> set ys"
  by (induction ys arbitrary: xs) (auto simp: set_set_add)

lemma parse_targets_step:
  assumes "\<not> bad_target fw ctx target"
  shows "\<exists>gs'. parse_targets fw ctx w (target # rest) gs = parse_targets fw ctx w rest gs' \<and>
           set gs' = set gs \<union> target_guilds fw ctx w target \<and> (distinct gs \<longrightarrow> distinct gs')"
proof (cases "target = ''$''")
  case True
  show ?thesis
    by (rule exI [of _ "set_add None gs"])
       (simp add: True target_guilds_def set_set_add distinct_set_add)
next
  case n1: False
  show ?thesis
  proof (cases "target = ''*''")
    case True
    show ?thesis
      by (rule exI [of _ "fold set_add (map Some (guild_command_keys fw w)) gs"])
         (simp add: n1 True target_guilds_def set_fold_set_add distinct_fold_set_add)
  next
    case n2: False
    show ?thesis
    proof (cases "target = ''.''")
      case True
      with assms obtain g where g: "guild_id ctx = Some g"
        by (auto simp: bad_target_def)
      show ?thesis
        by (rule exI [of _ "set_add (Some g) gs"])
           (simp add: n1 n2 True g target_guilds_def set_set_add distinct_set_add)
    next
      case n3: False
      with n1 n2 assms obtain g where g: "py_int fw target = Some g"
        by (auto simp: bad_target_def)
      show ?thesis
        by (rule exI [of _ "set_add (Some g) gs"])
           (simp add: n1 n2 n3 g target_guilds_def set_set_add distinct_set_add)
    qed
  qed
qed

lemma parse_targets_distinct:
  "distinct guilds_set \<Longrightarrow> parse_targets fw ctx w targets guilds_set = Parsed gs \<Longrightarrow> distinct gs"
proof (induction targets arbitrary: guilds_set)
  case Nil
  then show ?case by simp
next
  case (Cons target rest)
  show ?case
  proof (cases "target = ''$''")
    case True
    with Cons.prems(2) have "parse_targets fw ctx w rest (set_add None guilds_set) = Parsed gs" by simp
    then show ?thesis by (rule Cons.IH [OF distinct_set_add [OF Cons.prems(1)]])
  next
    case n1: False
    show ?thesis
    proof (cases "target = ''*''")
      case True
      with n1 Cons.prems(2) have
        "parse_targets fw ctx w rest (fold set_add (map Some (guild_command_keys fw w)) guilds_set) = Parsed gs"
        by simp
      then show ?thesis by (rule Cons.IH [OF distinct_fold_set_add [OF Cons.prems(1)]])
    next
      case n2: False
      show ?thesis
      proof (cases "target = ''.''")
        case True
        with n1 n2 Cons.prems(2) obtain g where
          "parse_targets fw ctx w rest (set_add (Some g) guilds_set) = Parsed gs"
          by (simp split: option.splits)
        then show ?thesis by (rule Cons.IH [OF distinct_set_add [OF Cons.prems(1)]])
      next
        case n3: False
        with n1 n2 Cons.prems(2) obtain g where
          "parse_targets fw ctx w rest (set_add (Some g) guilds_set) = Parsed gs"
          by (simp split: option.splits)
        then show ?thesis by (rule Cons.IH [OF distinct_set_add [OF Cons.prems(1)]])
      qed
    qed
  qed
qed

lemma parse_targets_stops:
  assumes "list_ex (bad_target fw ctx) targets"
  shows "parse_targets fw ctx w targets guilds_set =
           Return_after_send (''Can'' @ [CHR 0x27] @ ''t sync guild commands without guild information'') \<or>
         list_ex (\<lambda>t. parse_targets fw ctx w targets guilds_set =
            Raise (Exc BadArgument (t @ '' is not a valid guild ID''))) targets"
  using assms
proof (induction targets arbitrary: guilds_set)
  case Nil
  then show ?case by simp
next
  case (Cons target rest)
  show ?case
  proof (cases "bad_target fw ctx target")
    case True
    then show ?thesis
      by (simp add: bad_target_def split: if_splits)
  next
    case False
    with Cons.prems have r: "list_ex (bad_target fw ctx) rest" by simp
    from False obtain gs' where
      step: "parse_targets fw ctx w (target # rest) guilds_set = parse_targets fw ctx w rest gs'"
      by (auto simp add: bad_target_def split: if_splits)
    from Cons.IH [OF r, of gs'] show ?thesis
      unfolding step by (auto simp: list_ex_iff)
  qed
qed

lemma parse_targets_parsed:
  assumes "\<not> list_ex (bad_target fw ctx) targets"
  shows "\<exists>gs'. parse_targets fw ctx w targets gs = Parsed gs' \<and>
           set gs' = set gs \<union> (\<Union>t \<in> set targets. target_guilds fw ctx w t)"
  using assms
proof (induction targets arbitrary: gs)
  case Nil
  then show ?case by simp
next
  case (Cons target rest)
  then have t: "\<not> bad_target fw ctx target" and r: "\<not> list_ex (bad_target fw ctx) rest"
    by simp_all
  from parse_targets_step [OF t, of w rest gs] obtain gs1 where
    s1: "parse_targets fw ctx w (target # rest) gs = parse_targets fw ctx w rest gs1"
    and s2: "set gs1 = set gs \<union> target_guilds fw ctx w target"
    by (elim exE conjE)
  from Cons.IH [OF r, of gs1] obtain gs' where
    p1: "parse_targets fw ctx w rest gs1 = Parsed gs'"
    and p2: "set gs' = set gs1 \<union> (\<Union>t \<in> set rest. target_guilds fw ctx w t)"
    by (elim exE conjE)
  have "set gs' = set gs \<union> (\<Union>t \<in> set (target # rest). target_guilds fw ctx w t)"
    unfolding p2 s2 by auto
  with p1 show ?case unfolding s1 by (intro exI [of _ gs'] conjI)
qed

lemma parse_targets_raises:
  assumes "parse_targets fw ctx w targets gs = Raise e"
  shows "list_ex (\<lambda>t. bad_target fw ctx t \<and> e = Exc BadArgument (t @ '' is not a valid guild ID'')) targets"
  using assms
proof (induction targets arbitrary: gs)
  case Nil
  then show ?case by simp
next
  case (Cons target rest)
  show ?case
  proof (cases "bad_target fw ctx target")
    case True
    with Cons.prems show ?thesis
      by (auto simp: bad_target_def split: if_splits option.splits)
  next
    case False
    from parse_targets_step [OF False, of w rest gs] obtain gs' where
      "parse_targets fw ctx w (target # rest) gs = parse_targets fw ctx w rest gs'"
      by (elim exE conjE)
    with Cons.prems have "parse_targets fw ctx w rest gs' = Raise e" by simp
    from Cons.IH [OF this] show ?thesis by simp
  qed
qed

lemma guild_key_less: "guild_key a < guild_key b \<longleftrightarrow> global_first_ascending a b"
  by (cases a; cases b) (simp_all add: guild_key_def less_prod_def)

lemma guild_key_inj: "inj guild_key"
  by (rule injI) (simp add: guild_key_def)

lemma sync_guilds_sorted:
  assumes "distinct xs"
  shows "sorted_wrt global_first_ascending (sort_key guild_key xs)"
proof -
  have "sorted (map guild_key (sort_key guild_key xs))"
    by (rule sorted_sort_key)
  moreover have "distinct (map guild_key (sort_key guild_key xs))"
    using assms by (simp add: distinct_map inj_on_subset [OF guild_key_inj])
  ultimately have "sorted_wrt (<) (map guild_key (sort_key guild_key xs))"
    by (simp add: strict_sorted_iff)
  then show ?thesis
    by (simp add: sorted_wrt_map guild_key_less)
qed

lemma sorted_wrt_global_first_unique:
  assumes "sorted_wrt global_first_ascending xs" "sorted_wrt global_first_ascending ys"
    and "set xs = set ys"
  shows "xs = ys"
proof -
  have k: "sorted_wrt (<) (map guild_key zs)" if "sorted_wrt global_first_ascending zs" for zs
    using that by (simp add: sorted_wrt_map guild_key_less)
  have "map guild_key xs = map guild_key ys"
  proof (rule sorted_distinct_set_unique)
    show "sorted (map guild_key xs)" "distinct (map guild_key xs)"
      using k [OF assms(1)] by (simp_all add: strict_sorted_iff)
    show "sorted (map guild_key ys)" "distinct (map guild_key ys)"
      using k [OF assms(2)] by (simp_all add: strict_sorted_iff)
    show "set (map guild_key xs) = set (map guild_key ys)"
      using assms(3) by simp
  qed
  then show ?thesis
    using guild_key_inj by (simp add: inj_map_eq_map)
qed

text \<open>The list \<^verbatim>\<open>guilds\<close> does not depend on the order in which the set is listed.\<close>

lemma guilds_sort_order_free:
  assumes "distinct xs" "distinct ys" "set xs = set ys"
  shows "sort_key guild_key xs = sort_key guild_key ys"
  by (rule sorted_wrt_global_first_unique)
     (simp_all add: sync_guilds_sorted assms)

lemma sync_guilds_distinct:
  "distinct gs \<Longrightarrow> distinct (sync_guilds targets gs)"
  by (simp add: sync_guilds_def distinct_set_add)

lemma sync_guilds_ordered:
  "distinct gs \<Longrightarrow> sorted_wrt global_first_ascending (sync_guilds targets gs)"
  by (simp add: sync_guilds_def sync_guilds_sorted distinct_set_add)

lemma sync_order_set:
  assumes "\<not> list_ex (bad_target fw ctx) targets"
  shows "set (sync_order fw ctx w targets) =
           (\<Union>t \<in> set targets. target_guilds fw ctx w t) \<union> (if targets = [] then {None} else {})"
proof -
  from parse_targets_parsed [OF assms, of w "[]"] obtain gs where
    p: "parse_targets fw ctx w targets [] = Parsed gs"
    and s: "set gs = (\<Union>t \<in> set targets. target_guilds fw ctx w t)"
    by auto
  show ?thesis
    by (simp add: sync_order_def p sync_guilds_def set_set_add s)
qed

lemma sync_order_distinct: "distinct (sync_order fw ctx w targets)"
  by (cases "parse_targets fw ctx w targets []")
     (simp_all add: sync_order_def sync_guilds_distinct parse_targets_distinct [of "[]"])

lemma sync_order_sorted: "sorted_wrt global_first_ascending (sync_order fw ctx w targets)"
  by (cases "parse_targets fw ctx w targets []")
     (simp_all add: sync_order_def sync_guilds_ordered parse_targets_distinct [of "[]"])

subsection \<open>The calls of the sync command\<close>

lemma sync_calls_upsert_event [simp]:
  "sync_calls [upsert_event app_id guild payload] = [guild]"
  by (cases guild) (simp_all add: upsert_event_def)

lemma fetch_commands_trace:
  "trace (snd (snd (fetch_commands fw guild s))) =
     trace s @ [GetAllCommands (if guild_truthy guild then guild else None)]"
  by (simp add: fetch_commands_def Let_def alloc_def)

lemma upsert_commands_trace:
  "trace (snd (upsert_commands fw guild payload s)) =
     trace s @ [upsert_event (application_id fw (world s)) guild payload]"
  by (simp add: upsert_commands_def Let_def called_def split: prod.splits sum.splits option.splits)

lemma report_sync_calls:
  "sync_calls (trace (snd (snd (report_sync fw guild slash_commands synced (pg, s))))) =
     sync_calls (trace s)"
  by (simp add: report_sync_def paginator_add_line_trace sync_calls_append
      split: prod.splits sum.splits option.splits)

lemma sync_body_calls:
  "sync_calls (trace (snd (snd (sync_body fw guild (pg, s))))) = sync_calls (trace s) @ [guild]"
proof -
  obtain slash_commands payload s1 where f: "fetch_commands fw guild s = (slash_commands, payload, s1)"
    by (cases "fetch_commands fw guild s") auto
  obtain synced s2 where u: "upsert_commands fw guild payload s1 = (synced, s2)"
    by (cases "upsert_commands fw guild payload s1") auto
  have "sync_calls (trace s1) = sync_calls (trace s)"
    using fetch_commands_trace [of fw guild s] f by (simp add: sync_calls_append)
  moreover have "sync_calls (trace s2) = sync_calls (trace s1) @ [guild]"
    using upsert_commands_trace [of fw guild payload s1] u by (simp add: sync_calls_append)
  ultimately show ?thesis
    by (simp add: sync_body_def f u report_sync_calls)
qed

lemma sync_loop_calls:
  "\<exists>done. prefix done guilds \<and>
      sync_calls (trace (snd (snd (for_each (sync_body fw) guilds (pg, s))))) =
        sync_calls (trace s) @ done \<and>
      (fst (for_each (sync_body fw) guilds (pg, s)) = None \<longrightarrow> done = guilds)"
proof (induction guilds arbitrary: pg s)
  case Nil
  then show ?case by simp
next
  case (Cons guild guilds)
  obtain r pg' s' where b: "sync_body fw guild (pg, s) = (r, pg', s')"
    by (cases "sync_body fw guild (pg, s)") auto
  have c: "sync_calls (trace s') = sync_calls (trace s) @ [guild]"
    using sync_body_calls [of fw guild pg s] b by simp
  show ?case
  proof (cases r)
    case None
    have step: "for_each (sync_body fw) (guild # guilds) (pg, s) = for_each (sync_body fw) guilds (pg', s')"
      using b None by simp
    from Cons.IH [of pg' s'] obtain rest where
      r1: "prefix rest guilds"
      and r2: "sync_calls (trace (snd (snd (for_each (sync_body fw) guilds (pg', s'))))) =
           sync_calls (trace s') @ rest"
      and r3: "fst (for_each (sync_body fw) guilds (pg', s')) = None \<longrightarrow> rest = guilds"
      by (elim exE conjE)
    have "prefix (guild # rest) (guild # guilds)" using r1 by simp
    moreover have "sync_calls (trace (snd (snd (for_each (sync_body fw) (guild # guilds) (pg, s))))) =
        sync_calls (trace s) @ guild # rest"
      unfolding step r2 c by simp
    moreover have "fst (for_each (sync_body fw) (guild # guilds) (pg, s)) = None \<longrightarrow> guild # rest = guild # guilds"
      unfolding step using r3 by simp
    ultimately show ?thesis by (intro exI [of _ "guild # rest"] conjI)
  next
    case (Some e)
    have step: "for_each (sync_body fw) (guild # guilds) (pg, s) = (Some e, pg', s')"
      using b Some by simp
    have "prefix [guild] (guild # guilds)" by simp
    moreover have "sync_calls (trace (snd (snd (for_each (sync_body fw) (guild # guilds) (pg, s))))) =
        sync_calls (trace s) @ [guild]"
      unfolding step using c by simp
    moreover have "fst (for_each (sync_body fw) (guild # guilds) (pg, s)) = None \<longrightarrow> [guild] = guild # guilds"
      unfolding step by simp
    ultimately show ?thesis by (intro exI [of _ "[guild]"] conjI)
  qed
qed

lemma report_sync_trace:
  "prefix (trace s) (trace (snd (snd (report_sync fw guild slash_commands synced (pg, s)))))"
  by (simp add: report_sync_def paginator_add_line_trace
      split: prod.splits sum.splits option.splits)

lemma sync_body_trace:
  "prefix
     (trace s @
       [GetAllCommands (if guild_truthy guild then guild else None),
        upsert_event (application_id fw (world s)) guild
          (map (to_dict fw (heap s @ [PyList (get_all_commands fw (if guild_truthy guild then guild else None) (world s))]))
             (get_all_commands fw (if guild_truthy guild then guild else None) (world s)))])
     (trace (snd (snd (sync_body fw guild (pg, s)))))"
proof -
  let ?object = "if guild_truthy guild then guild else None"
  let ?commands = "get_all_commands fw ?object (world s)"
  let ?payload = "map (to_dict fw (heap s @ [PyList ?commands])) ?commands"
  let ?s1 = "s\<lparr>trace := trace s @ [GetAllCommands ?object], heap := heap s @ [PyList ?commands]\<rparr>"
  have f: "fetch_commands fw guild s = (length (heap s), ?payload, ?s1)"
    by (simp add: fetch_commands_def Let_def alloc_def)
  obtain synced s2 where u: "upsert_commands fw guild ?payload ?s1 = (synced, s2)"
    by (cases "upsert_commands fw guild ?payload ?s1") auto
  have t: "trace s2 = trace s @ [GetAllCommands ?object, upsert_event (application_id fw (world s)) guild ?payload]"
    using upsert_commands_trace [of fw guild ?payload ?s1] u by simp
  have "sync_body fw guild (pg, s) = report_sync fw guild (length (heap s)) synced (pg, s2)"
    by (simp add: sync_body_def f u)
  then show ?thesis
    using report_sync_trace [of s2 fw guild "length (heap s)" synced pg] t by simp
qed

lemma sync_loop_sends:
  assumes "for_each (sync_body fw) guilds (new_paginator fw, s) = (r, pg, s')"
  shows "\<exists>done. prefix done guilds \<and>
           sync_calls (trace (snd (case r of Some e \<Rightarrow> (Some e, s') | None \<Rightarrow> send_pages fw pg s'))) =
             sync_calls (trace s) @ done \<and>
           (fst (case r of Some e \<Rightarrow> (Some e, s') | None \<Rightarrow> send_pages fw pg s') = None \<longrightarrow> done = guilds)"
proof -
  from sync_loop_calls [of guilds fw "new_paginator fw" s] obtain finished where
    d1: "prefix finished guilds"
    and d2: "sync_calls (trace s') = sync_calls (trace s) @ finished"
    and d3: "r = None \<longrightarrow> finished = guilds"
    unfolding assms by (elim exE conjE) simp
  show ?thesis
  proof (cases r)
    case None
    with d3 have "finished = guilds" by simp
    with d1 d2 None show ?thesis
      by (intro exI [of _ finished] conjI) (simp_all add: send_pages_sync_calls)
  next
    case (Some e)
    with d1 d2 show ?thesis
      by (intro exI [of _ finished] conjI) simp_all
  qed
qed

lemma jsk_sync_parsed:
  assumes "\<not> not_allowed ctx" and "\<not> no_application_id fw (world s)"
    and "parse_targets fw ctx (world s) targets [] = Parsed gs"
    and "for_each (sync_body fw) (sync_guilds targets gs) (new_paginator fw, s) = (r, pg, s')"
  shows "jsk_sync fw ctx targets s = (case r of Some e \<Rightarrow> (Some e, s') | None \<Rightarrow> send_pages fw pg s')"
  using assms by (simp add: jsk_sync_def split: option.splits)



text \<open>
  C3. The list \<^verbatim>\<open>guilds\<close> that the sync command makes of its targets has no guild twice
  and is in the order of the spec, the global target first and the guild ids ascending; it
  holds the guilds that the targets name; the upsert calls of the run are made in the order
  of the list, and they are all of the list when the command returns.
\<close>

theorem sync_targets_ordered:
  "distinct (sync_order fw ctx w targets) \<and>
   sorted_wrt global_first_ascending (sync_order fw ctx w targets) \<and>
   (\<not> list_ex (bad_target fw ctx) targets \<longrightarrow>
      set (sync_order fw ctx w targets) =
        (\<Union>t \<in> set targets. target_guilds fw ctx w t) \<union> (if targets = [] then {None} else {})) \<and>
   prefix (sync_calls (trace (snd (jsk_sync fw ctx targets (start w h)))))
     (sync_order fw ctx w targets) \<and>
   (\<not> not_allowed ctx \<and> \<not> no_application_id fw w \<and>
    fst (jsk_sync fw ctx targets (start w h)) = None \<longrightarrow>
      sync_calls (trace (snd (jsk_sync fw ctx targets (start w h)))) = sync_order fw ctx w targets)"
proof -
  let ?run = "jsk_sync fw ctx targets (start w h)"
  have calls: "prefix (sync_calls (trace (snd ?run))) (sync_order fw ctx w targets) \<and>
     (\<not> not_allowed ctx \<and> \<not> no_application_id fw w \<and> fst ?run = None \<longrightarrow>
        sync_calls (trace (snd ?run)) = sync_order fw ctx w targets)"
  proof (cases "not_allowed ctx")
    case True
    then show ?thesis by (simp add: jsk_sync_def)
  next
    case allowed: False
    show ?thesis
    proof (cases "no_application_id fw w")
      case True
      with allowed show ?thesis by (simp add: jsk_sync_def ctx_send_trace)
    next
      case app: False
      show ?thesis
      proof (cases "parse_targets fw ctx w targets []")
        case (Parsed gs)
        obtain r pg s' where
          l: "for_each (sync_body fw) (sync_guilds targets gs) (new_paginator fw, start w h) = (r, pg, s')"
          by (cases "for_each (sync_body fw) (sync_guilds targets gs) (new_paginator fw, start w h)") auto
        have j: "?run = (case r of Some e \<Rightarrow> (Some e, s') | None \<Rightarrow> send_pages fw pg s')"
          by (rule jsk_sync_parsed [OF _ _ _ l]) (simp_all add: allowed app Parsed)
        from sync_loop_sends [OF l] obtain finished where
          "prefix finished (sync_guilds targets gs)"
          and "sync_calls (trace (snd ?run)) = finished"
          and "fst ?run = None \<longrightarrow> finished = sync_guilds targets gs"
          unfolding j [symmetric] by (elim exE conjE) simp
        then show ?thesis by (simp add: sync_order_def Parsed)
      next
        case (Return_after_send notice)
        with allowed app show ?thesis
          by (simp add: jsk_sync_def sync_order_def ctx_send_trace)
      next
        case (Raise e)
        with allowed app show ?thesis
          by (simp add: jsk_sync_def sync_order_def)
      qed
    qed
  qed
  show ?thesis
    using calls sync_order_distinct [of fw ctx w targets] sync_order_sorted [of fw ctx w targets]
      sync_order_set [of fw ctx targets w]
    by (intro conjI impI) simp_all
qed

text \<open>On the example, four targets that name three guilds, the global one among them.\<close>

theorem sync_targets_ordered_witness:
  "\<not> not_allowed owner \<and> \<not> no_application_id demo [] \<and>
   \<not> list_ex (bad_target demo owner) [''7'', ''$'', ''-2'', ''7''] \<and>
   sync_order demo owner [] [''7'', ''$'', ''-2'', ''7''] = [None, Some (- 2), Some 7] \<and>
   fst (jsk_sync demo owner [''7'', ''$'', ''-2'', ''7''] (start [] demo_store)) = None \<and>
   sync_calls (trace (snd (jsk_sync demo owner [''7'', ''$'', ''-2'', ''7''] (start [] demo_store))))
     = [None, Some (- 2), Some 7]"
proof -
  let ?targets = "[''7'', ''$'', ''-2'', ''7'']"
  have d: "decimal ''7'' = Some 7" "decimal ''-2'' = Some (- 2)"
    by (simp_all add: decimal_def digits_value_def is_digit_def)
  have b: "\<not> list_ex (bad_target demo owner) ?targets"
    by (simp add: bad_target_def demo_def d)
  have o: "sync_order demo owner [] ?targets = [None, Some (- 2), Some 7]"
    by (simp add: sync_order_def sync_guilds_def set_add_def demo_def d guild_key_def)
  have r: "fst (jsk_sync demo owner ?targets (start [] demo_store)) = None"
    by (simp add: sync_eval demo_def)
  from sync_targets_ordered [of demo owner "[]" ?targets demo_store] b o r owner_allowed
    demo_has_application_id [of "[]"]
  show ?thesis by simp
qed

text \<open>
  C9. When the application id is not set, or a target is \<^verbatim>\<open>.\<close> outside a guild, or a target is
  none of \<^verbatim>\<open>$\<close>, \<^verbatim>\<open>*\<close>, \<^verbatim>\<open>.\<close> and an integer, the sync command of an allowed user makes no upsert
  call, whatever the other targets: it sends one notice and returns, or it raises
  \<^verbatim>\<open>BadArgument\<close> for a target of its list and has called nothing, and the store is as it was.
\<close>

theorem sync_stops_before_any_call:
  assumes "\<not> not_allowed ctx"
    and "no_application_id fw w \<or> list_ex (bad_target fw ctx) targets"
  shows "sync_calls (trace (snd (jsk_sync fw ctx targets (start w h)))) = [] \<and>
         heap (snd (jsk_sync fw ctx targets (start w h))) = h \<and>
         (trace (snd (jsk_sync fw ctx targets (start w h))) =
            [Send ''Cannot sync when application info not fetched''] \<or>
          trace (snd (jsk_sync fw ctx targets (start w h))) =
            [Send (''Can'' @ [CHR 0x27] @ ''t sync guild commands without guild information'')] \<or>
          trace (snd (jsk_sync fw ctx targets (start w h))) = [] \<and>
          list_ex (\<lambda>t. fst (jsk_sync fw ctx targets (start w h)) =
                          Some (Exc BadArgument (t @ '' is not a valid guild ID''))) targets)"
proof (cases "no_application_id fw w")
  case True
  with assms(1) show ?thesis
    by (simp add: jsk_sync_def ctx_send_trace ctx_send_heap)
next
  case app: False
  with assms(2) have bad: "list_ex (bad_target fw ctx) targets" by simp
  from parse_targets_stops [OF bad, of w "[]"] show ?thesis
  proof
    assume "parse_targets fw ctx w targets [] =
      Return_after_send (''Can'' @ [CHR 0x27] @ ''t sync guild commands without guild information'')"
    with assms(1) app show ?thesis
      by (simp add: jsk_sync_def ctx_send_trace ctx_send_heap)
  next
    assume r: "list_ex (\<lambda>t. parse_targets fw ctx w targets [] =
            Raise (Exc BadArgument (t @ '' is not a valid guild ID''))) targets"
    then obtain t where t: "t \<in> set targets"
      "parse_targets fw ctx w targets [] = Raise (Exc BadArgument (t @ '' is not a valid guild ID''))"
      by (auto simp: list_ex_iff)
    have "jsk_sync fw ctx targets (start w h) =
            (Some (Exc BadArgument (t @ '' is not a valid guild ID'')), start w h)"
      using assms(1) app t(2) by (simp add: jsk_sync_def)
    with t(1) show ?thesis by (auto simp: list_ex_iff)
  qed
qed

text \<open>On the example, a target that is no integer, and the target \<^verbatim>\<open>.\<close> outside a guild.\<close>

theorem sync_stops_before_any_call_witness:
  "\<not> not_allowed owner \<and>
   list_ex (bad_target demo owner) [''7'', ''abc''] \<and>
   list_ex (bad_target demo owner) [''.'', ''7''] \<and>
   sync_calls (trace (snd (jsk_sync demo owner [''7'', ''abc''] (start [] demo_store)))) = [] \<and>
   fst (jsk_sync demo owner [''7'', ''abc''] (start [] demo_store)) =
     Some (Exc BadArgument ''abc is not a valid guild ID'') \<and>
   sync_calls (trace (snd (jsk_sync demo owner [''.'', ''7''] (start [] demo_store)))) = [] \<and>
   trace (snd (jsk_sync demo owner [''.'', ''7''] (start [] demo_store))) =
     [Send (''Can'' @ [CHR 0x27] @ ''t sync guild commands without guild information'')]"
proof -
  have d: "decimal ''7'' = Some 7" "decimal ''abc'' = None"
    by (simp_all add: decimal_def digits_value_def is_digit_def)
  have b1: "list_ex (bad_target demo owner) [''7'', ''abc'']"
    by (simp add: bad_target_def demo_def d)
  have b2: "list_ex (bad_target demo owner) [''.'', ''7'']"
    by (simp add: bad_target_def owner_def)
  have e1: "fst (jsk_sync demo owner [''7'', ''abc''] (start [] demo_store)) =
     Some (Exc BadArgument ''abc is not a valid guild ID'')"
    by (simp add: sync_eval demo_def)
  have e2: "trace (snd (jsk_sync demo owner [''.'', ''7''] (start [] demo_store))) =
     [Send (''Can'' @ [CHR 0x27] @ ''t sync guild commands without guild information'')]"
    by (simp add: sync_eval demo_def)
  from sync_stops_before_any_call [OF owner_allowed, of demo "[]" "[''7'', ''abc'']" demo_store]
    sync_stops_before_any_call [OF owner_allowed, of demo "[]" "[''.'', ''7'']" demo_store]
    b1 b2 e1 e2 owner_allowed
  show ?thesis by simp
qed

subsection \<open>The diagnosis\<close>

lemma subscript_exception: "subscript xs i = Inl e \<Longrightarrow> is_Exception e"
  by (auto simp: subscript_def split: if_splits)

lemma pool_item_exception: "pool_item h pool index = Inl e \<Longrightarrow> is_Exception e"
  by (auto simp: pool_item_def split: option.splits obj.splits dest: subscript_exception)

lemma command_name_exception: "command_name h c = Inl e \<Longrightarrow> is_Exception e"
  by (auto simp: command_name_def split: option.splits obj.splits)

lemma command_params_exception: "command_params h c = Inl e \<Longrightarrow> is_Exception e"
  by (auto simp: command_params_def split: option.splits obj.splits)

lemma walk_step_exception:
  assumes "fst (walk_step fw part st) = Some e"
  shows "is_Exception e"
proof -
  obtain pool selected_command name h where st: "st = (pool, selected_command, name, h)"
    by (cases st) auto
  show ?thesis
  proof (cases "py_int fw part")
    case None
    with assms st have "e = Exc ValueError (''invalid literal for int() with base 10: '' @ part)"
      by (simp add: walk_step_def)
    then show ?thesis by simp
  next
    case (Some index)
    show ?thesis
    proof (cases "truthy h pool")
      case True
      with assms st Some show ?thesis
        by (auto simp: walk_step_def alloc_def split: sum.splits option.splits
            dest: pool_item_exception command_name_exception)
    next
      case False
      with assms st Some show ?thesis
        by (auto simp: walk_step_def split: sum.splits
            dest: command_params_exception subscript_exception)
    qed
  qed
qed

lemma walk_exception:
  assumes "fst (walk fw slash_commands group1 h) = Some e"
  shows "is_Exception e"
proof (cases "length (split (CHR ''.'') group1) mod 2 \<noteq> 0")
  case True
  with assms have "e = Exc AssertionError []" by (simp add: walk_def)
  then show ?thesis by simp
next
  case False
  with assms have
    "fst (for_each (walk_step fw) (even_parts (split (CHR ''.'') group1))
            (Some slash_commands, None, [], h)) = Some e"
    by (simp add: walk_def)
  then show ?thesis
    by (rule for_each_exception [where body = "walk_step fw", rotated]) (rule walk_step_exception)
qed




subsection \<open>The store\<close>

lemma prefix_snoc: "prefix h0 h \<Longrightarrow> prefix h0 (h @ [x])"
  by (rule prefix_order.trans [of h0 h]) simp_all

lemma walk_step_store:
  assumes "prefix h0 (snd (snd (snd st)))"
  shows "prefix h0 (snd (snd (snd (snd (walk_step fw part st)))))"
proof -
  obtain pool selected_command name h where st: "st = (pool, selected_command, name, h)"
    by (cases st) auto
  with assms have p: "prefix h0 h" by simp
  then have q: "prefix h0 (h @ [x])" for x
    by (rule prefix_snoc)
  show ?thesis
    using p q
    by (simp add: st walk_step_def alloc_def split: option.splits sum.splits)
qed

lemma walk_store: "prefix h (snd (snd (snd (snd (walk fw slash_commands group1 h)))))"
proof (cases "length (split (CHR ''.'') group1) mod 2 \<noteq> 0")
  case True
  then show ?thesis by (simp add: walk_def)
next
  case False
  have "prefix h (snd (snd (snd (snd (for_each (walk_step fw) (even_parts (split (CHR ''.'') group1))
          (Some slash_commands, None, [], h))))))"
    by (rule for_each_invariant [where P = "\<lambda>st. prefix h (snd (snd (snd st)))"])
       (simp_all add: walk_step_store)
  with False show ?thesis by (simp add: walk_def)
qed

lemma diagnose_line_store: "prefix h (snd (snd (diagnose_line fw slash_commands line h)))"
proof (cases "SLASH_COMMAND_ERROR line")
  case None
  then show ?thesis by (simp add: diagnose_line_def)
next
  case (Some group1)
  obtain r pool selected_command name h' where
    w: "walk fw slash_commands group1 h = (r, pool, selected_command, name, h')"
    by (cases "walk fw slash_commands group1 h") auto
  have "prefix h h'"
    using walk_store [of h fw slash_commands group1] w by simp
  then show ?thesis
    by (simp add: diagnose_line_def Some w split: option.splits sum.splits)
qed

lemma diagnose_body_store:
  assumes "prefix h0 (snd st)"
  shows "prefix h0 (snd (snd (diagnose_body fw slash_commands line st)))"
proof -
  obtain error_lines h where st: "st = (error_lines, h)" by (cases st) auto
  obtain r notices h' where d: "diagnose_line fw slash_commands line h = (r, notices, h')"
    by (cases "diagnose_line fw slash_commands line h") auto
  have "prefix h h'"
    using diagnose_line_store [of h fw slash_commands line] d by simp
  with assms st have "prefix h0 h'" by (auto intro: prefix_order.trans)
  then show ?thesis by (simp add: diagnose_body_def st d)
qed

lemma diagnose_store: "prefix h (snd (snd (diagnose fw slash_commands error h)))"
  unfolding diagnose_def
  by (rule for_each_invariant [where P = "\<lambda>st. prefix h (snd st)"])
     (simp_all add: diagnose_body_store)

lemma report_sync_store:
  "prefix (heap s) (heap (snd (snd (report_sync fw guild slash_commands synced (pg, s)))))"
proof (cases synced)
  case (Inl error)
  obtain r error_lines h' where d: "diagnose fw slash_commands error (heap s) = (r, error_lines, h')"
    by (cases "diagnose fw slash_commands error (heap s)") auto
  have "prefix (heap s) h'"
    using diagnose_store [of "heap s" fw slash_commands error] d by simp
  then show ?thesis
    by (simp add: report_sync_def Inl d paginator_add_line_heap split: option.splits)
next
  case (Inr n)
  then show ?thesis by (simp add: report_sync_def paginator_add_line_heap)
qed

lemma upsert_commands_heap: "heap (snd (upsert_commands fw guild payload s)) = heap s"
  by (simp add: upsert_commands_def Let_def called_def split: prod.splits sum.splits option.splits)

lemma sync_body_store:
  "prefix (heap s @ [PyList (get_all_commands fw (if guild_truthy guild then guild else None) (world s))])
          (heap (snd (snd (sync_body fw guild (pg, s)))))"
proof -
  let ?object = "if guild_truthy guild then guild else None"
  let ?commands = "get_all_commands fw ?object (world s)"
  let ?payload = "map (to_dict fw (heap s @ [PyList ?commands])) ?commands"
  let ?s1 = "s\<lparr>trace := trace s @ [GetAllCommands ?object], heap := heap s @ [PyList ?commands]\<rparr>"
  have f: "fetch_commands fw guild s = (length (heap s), ?payload, ?s1)"
    by (simp add: fetch_commands_def Let_def alloc_def)
  obtain synced s2 where u: "upsert_commands fw guild ?payload ?s1 = (synced, s2)"
    by (cases "upsert_commands fw guild ?payload ?s1") auto
  have h: "heap s2 = heap s @ [PyList ?commands]"
    using upsert_commands_heap [of fw guild ?payload ?s1] u by simp
  have "sync_body fw guild (pg, s) = report_sync fw guild (length (heap s)) synced (pg, s2)"
    by (simp add: sync_body_def f u)
  then show ?thesis
    using report_sync_store [of s2 fw guild "length (heap s)" synced pg] h by simp
qed

lemma sync_body_store_grows:
  assumes "prefix h0 (heap (snd st))"
  shows "prefix h0 (heap (snd (snd (sync_body fw guild st))))"
proof -
  obtain pg s where st: "st = (pg, s)" by (cases st) auto
  have "prefix (heap s) (heap s @ [PyList (get_all_commands fw (if guild_truthy guild then guild else None) (world s))])"
    by simp
  then have "prefix (heap s) (heap (snd (snd (sync_body fw guild (pg, s)))))"
    using sync_body_store [of s fw guild pg] by (rule prefix_order.trans)
  with assms st show ?thesis by (auto intro: prefix_order.trans)
qed

lemma sync_loop_store:
  "prefix (heap s) (heap (snd (snd (for_each (sync_body fw) guilds (pg, s)))))"
  by (rule for_each_invariant [where P = "\<lambda>st. prefix (heap s) (heap (snd st))"])
     (simp_all add: sync_body_store_grows)

text \<open>A reference into a store reads the same object in every store that starts with it.\<close>

lemma prefix_deref: "prefix h h' \<Longrightarrow> r < length h \<Longrightarrow> deref h' r = deref h r"
  by (auto simp: deref_def prefix_def nth_append)

text \<open>
  C8. The sync command changes no object of the store: the store at the end of an
  invocation starts with the store at its beginning, every object at its reference. The
  same holds from the moment the list of commands is fetched to the end of the round for
  its guild, so the list and every command that the walk reaches are as they were, and
  for the diagnosis of one error: all that the handler does to the store is to add the
  lists it makes.
\<close>

theorem sync_keeps_command_tree:
  "prefix (heap s) (heap (snd (jsk_sync fw ctx targets s))) \<and>
   prefix (heap s @ [PyList (get_all_commands fw (if guild_truthy guild then guild else None) (world s))])
          (heap (snd (snd (sync_body fw guild (pg, s))))) \<and>
   prefix h (snd (snd (diagnose fw slash_commands error h)))"
proof -
  have "prefix (heap s) (heap (snd (jsk_sync fw ctx targets s)))"
  proof (cases "not_allowed ctx \<or> no_application_id fw (world s)")
    case True
    then show ?thesis by (auto simp: jsk_sync_def ctx_send_heap)
  next
    case False
    show ?thesis
    proof (cases "parse_targets fw ctx (world s) targets []")
      case (Parsed gs)
      obtain r pg' s' where
        l: "for_each (sync_body fw) (sync_guilds targets gs) (new_paginator fw, s) = (r, pg', s')"
        by (cases "for_each (sync_body fw) (sync_guilds targets gs) (new_paginator fw, s)") auto
      have p: "prefix (heap s) (heap s')"
        using sync_loop_store [of s fw "sync_guilds targets gs" "new_paginator fw"] l by simp
      have "jsk_sync fw ctx targets s =
              (case r of Some e \<Rightarrow> (Some e, s') | None \<Rightarrow> send_pages fw pg' s')"
        using False by (intro jsk_sync_parsed [OF _ _ Parsed l]) simp_all
      with p show ?thesis by (cases r) (simp_all add: send_pages_heap)
    next
      case (Return_after_send notice)
      with False show ?thesis by (simp add: jsk_sync_def ctx_send_heap)
    next
      case (Raise e)
      with False show ?thesis by (simp add: jsk_sync_def)
    qed
  qed
  then show ?thesis
    using sync_body_store [of s fw guild pg] diagnose_store [of h fw slash_commands error]
    by simp
qed

subsection \<open>Reports of the extensions\<close>

text \<open>The bodies of the two loops make the call, and report what \<^verbatim>\<open>except Exception\<close> catches.\<close>

lemma load_body_call:
  "load_body fw extension (pg, s) =
     (if caught (fst (load_call fw extension (world s)))
      then paginator_add_line fw (report_line fw (fst (load_call fw extension (world s))))
             (pg, called (fst (load_call fw extension (world s))) (snd (load_call fw extension (world s))) s)
      else (call_result (fst (load_call fw extension (world s))), pg,
            called (fst (load_call fw extension (world s))) (snd (load_call fw extension (world s))) s))"
proof (cases "extension_loaded fw extension (world s)")
  case True
  obtain r w' where m: "reload_extension fw extension (world s) = (r, w')"
    by (cases "reload_extension fw extension (world s)") auto
  show ?thesis
    by (cases r)
       (simp_all add: load_body_def load_call_def True m report_extension_def caught_def
          call_result_def report_line_def report_def)
next
  case False
  obtain r w' where m: "load_extension fw extension (world s) = (r, w')"
    by (cases "load_extension fw extension (world s)") auto
  show ?thesis
    by (cases r)
       (simp_all add: load_body_def load_call_def False m report_extension_def caught_def
          call_result_def report_line_def report_def)
qed

lemma unload_body_call:
  "unload_body fw extension (pg, s) =
     (if caught (fst (unload_call fw extension (world s)))
      then paginator_add_line fw (report_line fw (fst (unload_call fw extension (world s))))
             (pg, called (fst (unload_call fw extension (world s))) (snd (unload_call fw extension (world s))) s)
      else (call_result (fst (unload_call fw extension (world s))), pg,
            called (fst (unload_call fw extension (world s))) (snd (unload_call fw extension (world s))) s))"
proof -
  obtain r w' where m: "unload_extension fw extension (world s) = (r, w')"
    by (cases "unload_extension fw extension (world s)") auto
  show ?thesis
    by (cases r)
       (simp_all add: unload_body_def unload_call_def m report_extension_def caught_def
          call_result_def report_line_def report_def)
qed

lemma fill_Cons:
  "add_line fw line pg = Inr pg' \<Longrightarrow> fill fw (line # rest) pg = fill fw rest pg'"
  by (simp add: fill_def)

lemma round_events_Cons:
  "round_events fw (c # cs) = c # AddLine (report_line fw c) # round_events fw cs"
  by (simp add: round_events_def)


lemma delivered_sends:
  "delivered fw ps (world s) \<Longrightarrow> fst (for_each (ctx_send fw) ps s) = None"
proof (induction ps arbitrary: s)
  case Nil
  show ?case by simp
next
  case (Cons p ps)
  obtain r w' where m: "send fw p (world s) = (r, w')"
    by (cases "send fw p (world s)") auto
  from Cons.prems m have r: "r = None" and d: "delivered fw ps w'"
    by (cases r; simp)+
  have c: "ctx_send fw p s = (None, called (Send p) w' s)"
    by (simp add: ctx_send_def m r)
  have "delivered fw ps (world (called (Send p) w' s))"
    using d by (simp add: called_def)
  from Cons.IH [OF this] show ?case by (simp add: c)
qed

text \<open>
  A loop whose body makes the call of \<open>call\<close> and reports what is caught: its events are the
  start of the events of the calls with their reports, and all of them when the loop returns.
  It returns when every failure is caught and the paginator takes every line.
\<close>

lemma extension_loop:
  assumes body: "\<And>n pg s. body n (pg, s) =
     (if caught (fst (call n (world s)))
      then paginator_add_line fw (report_line fw (fst (call n (world s))))
             (pg, called (fst (call n (world s))) (snd (call n (world s))) s)
      else (call_result (fst (call n (world s))), pg,
            called (fst (call n (world s))) (snd (call n (world s))) s))"
  shows "\<exists>T. trace (snd (snd (for_each body exts (pg, s)))) = trace s @ T \<and>
             heap (snd (snd (for_each body exts (pg, s)))) = heap s \<and>
             prefix T (round_events fw (calls call exts (world s))) \<and>
             (fst (for_each body exts (pg, s)) = None \<longrightarrow>
                T = round_events fw (calls call exts (world s)) \<and>
                fst (snd (for_each body exts (pg, s)))
                  = fill fw (map (report_line fw) (calls call exts (world s))) pg \<and>
                world (snd (snd (for_each body exts (pg, s)))) = world_after call exts (world s)) \<and>
             (list_all caught (calls call exts (world s)) \<and>
              takes fw (map (report_line fw) (calls call exts (world s))) pg \<longrightarrow>
                fst (for_each body exts (pg, s)) = None)"
proof (induction exts arbitrary: pg s)
  case Nil
  show ?case by (intro exI [of _ "[]"]) (simp add: round_events_def fill_def)
next
  case (Cons n ns)
  obtain c w' where cl: "call n (world s) = (c, w')"
    by (cases "call n (world s)") auto
  define s1 where "s1 = called c w' s"
  have s1: "world s1 = w'" "trace s1 = trace s @ [c]" "heap s1 = heap s"
    by (simp_all add: s1_def called_def)
  have cs: "calls call (n # ns) (world s) = c # calls call ns w'"
    and wa: "world_after call (n # ns) (world s) = world_after call ns w'"
    using cl by simp_all
  show ?case
  proof (cases "caught c")
    case False
    then obtain e where e: "call_result c = Some e"
      by (cases "call_result c") (simp_all add: caught_def)
    have step: "for_each body (n # ns) (pg, s) = (Some e, pg, s1)"
      using body [of n pg s] cl False e by (simp add: s1_def)
    show ?thesis
      unfolding step cs
      by (intro exI [of _ "[c]"] conjI) (use s1 False in \<open>simp_all add: round_events_Cons\<close>)
  next
    case True
    define s2 where "s2 = s1\<lparr>trace := trace s1 @ [AddLine (report_line fw c)]\<rparr>"
    have s2: "world s2 = w'" "trace s2 = trace s @ [c, AddLine (report_line fw c)]"
      "heap s2 = heap s"
      using s1 by (simp_all add: s2_def)
    have b: "body n (pg, s) = paginator_add_line fw (report_line fw c) (pg, s1)"
      using body [of n pg s] cl True by (simp add: s1_def)
    show ?thesis
    proof (cases "add_line fw (report_line fw c) pg")
      case (Inl e)
      have step: "for_each body (n # ns) (pg, s) = (Some e, pg, s2)"
        using b Inl by (simp add: paginator_add_line_def s2_def)
      show ?thesis
        unfolding step cs
        by (intro exI [of _ "[c, AddLine (report_line fw c)]"] conjI)
           (use s2 Inl in \<open>simp_all add: round_events_Cons\<close>)
    next
      case (Inr pg1)
      have step: "for_each body (n # ns) (pg, s) = for_each body ns (pg1, s2)"
        using b Inr by (simp add: paginator_add_line_def s2_def)
      from Cons.IH [of pg1 s2] obtain T where
        t: "trace (snd (snd (for_each body ns (pg1, s2)))) = trace s2 @ T"
        and h: "heap (snd (snd (for_each body ns (pg1, s2)))) = heap s2"
        and p: "prefix T (round_events fw (calls call ns w'))"
        and r: "fst (for_each body ns (pg1, s2)) = None \<longrightarrow>
                T = round_events fw (calls call ns w') \<and>
                fst (snd (for_each body ns (pg1, s2)))
                  = fill fw (map (report_line fw) (calls call ns w')) pg1 \<and>
                world (snd (snd (for_each body ns (pg1, s2)))) = world_after call ns w'"
        and q: "list_all caught (calls call ns w') \<and>
              takes fw (map (report_line fw) (calls call ns w')) pg1 \<longrightarrow>
                fst (for_each body ns (pg1, s2)) = None"
        unfolding s2(1) by (elim exE conjE)
      show ?thesis
        unfolding step cs wa
        by (intro exI [of _ "c # AddLine (report_line fw c) # T"] conjI)
           (use t h p r q s2 Inr True in \<open>simp_all add: round_events_Cons fill_Cons\<close>)
    qed
  qed
qed


lemma load_calls:
  "list_all is_call (calls (load_call fw) ns w) \<and>
   map extension_of (calls (load_call fw) ns w) = ns"
  by (induction ns arbitrary: w)
     (simp_all add: load_call_def extension_of_def split: prod.splits)

lemma unload_calls:
  "list_all is_call (calls (unload_call fw) ns w) \<and>
   map extension_of (calls (unload_call fw) ns w) = ns"
  by (induction ns arbitrary: w)
     (simp_all add: unload_call_def extension_of_def split: prod.splits)

lemma round_events_observed:
  "list_all is_call cs \<Longrightarrow>
     lines_added (round_events fw cs) = map (report_line fw) cs \<and>
     sent (round_events fw cs) = [] \<and>
     list_all (\<lambda>ev. \<not> is_Send ev) (round_events fw cs)"
proof (induction cs)
  case Nil
  show ?case by (simp add: round_events_def)
next
  case (Cons c cs)
  then show ?case by (cases c) (simp_all add: round_events_Cons)
qed

lemma prefix_observed:
  assumes "prefix T E"
  shows "prefix (lines_added T) (lines_added E)"
    and "sent E = [] \<Longrightarrow> sent T = []"
    and "list_all P E \<Longrightarrow> filter P T = T"
proof -
  from assms obtain R where e: "E = T @ R" by (auto simp: prefix_def)
  show "prefix (lines_added T) (lines_added E)" by (simp add: e lines_added_append)
  show "sent E = [] \<Longrightarrow> sent T = []" by (simp add: e sent_append)
  show "list_all P E \<Longrightarrow> filter P T = T" by (simp add: e list_all_iff filter_id_conv)
qed

text \<open>
  The run of a handler whose loop makes the call of \<open>call\<close>: its events other than the
  messages are the start of the events of the calls with their reports, its messages are
  pages of the paginator that holds the reports, and it returns when every failure is
  caught, the paginator takes every line and every message is sent.
\<close>

lemma extension_handler:
  assumes body: "\<And>n pg s. body n (pg, s) =
     (if caught (fst (call n (world s)))
      then paginator_add_line fw (report_line fw (fst (call n (world s))))
             (pg, called (fst (call n (world s))) (snd (call n (world s))) s)
      else (call_result (fst (call n (world s))), pg,
            called (fst (call n (world s))) (snd (call n (world s))) s))"
    and cs: "list_all is_call (calls call exts w)"
    and run: "run = (case for_each body exts (new_paginator fw, start w h) of
                       (Some e, pg, s') \<Rightarrow> (Some e, s')
                     | (None, pg, s') \<Rightarrow> send_pages fw pg s')"
  shows "prefix (filter (\<lambda>ev. \<not> is_Send ev) (trace (snd run))) (round_events fw (calls call exts w))"
    and "prefix (lines_added (trace (snd run))) (map (report_line fw) (calls call exts w))"
    and "fst run = None \<Longrightarrow>
           filter (\<lambda>ev. \<not> is_Send ev) (trace (snd run)) = round_events fw (calls call exts w) \<and>
           lines_added (trace (snd run)) = map (report_line fw) (calls call exts w) \<and>
           sent (trace (snd run))
             = pages fw (fill fw (map (report_line fw) (calls call exts w)) (new_paginator fw))"
    and "list_all caught (calls call exts w) \<Longrightarrow>
         takes fw (map (report_line fw) (calls call exts w)) (new_paginator fw) \<Longrightarrow>
           filter (\<lambda>ev. \<not> is_Send ev) (trace (snd run)) = round_events fw (calls call exts w) \<and>
           lines_added (trace (snd run)) = map (report_line fw) (calls call exts w)"
    and "list_all caught (calls call exts w) \<Longrightarrow>
         takes fw (map (report_line fw) (calls call exts w)) (new_paginator fw) \<Longrightarrow>
         delivered fw
           (pages fw (fill fw (map (report_line fw) (calls call exts w)) (new_paginator fw)))
           (world_after call exts w) \<Longrightarrow>
           fst run = None"
proof -
  let ?E = "round_events fw (calls call exts w)"
  let ?L = "map (report_line fw) (calls call exts w)"
  let ?ps = "pages fw (fill fw ?L (new_paginator fw))"
  note ob = round_events_observed [OF cs, of fw]
  obtain r pg' s' where l: "for_each body exts (new_paginator fw, start w h) = (r, pg', s')"
    by (cases "for_each body exts (new_paginator fw, start w h)") auto
  from extension_loop [of body call fw exts "new_paginator fw" "start w h", OF body]
  obtain T where t: "trace s' = T"
    and p: "prefix T ?E"
    and n: "r = None \<longrightarrow> T = ?E \<and> pg' = fill fw ?L (new_paginator fw) \<and> world s' = world_after call exts w"
    and q: "list_all caught (calls call exts w) \<and> takes fw ?L (new_paginator fw) \<longrightarrow> r = None"
    unfolding l by (simp only: fst_conv snd_conv start_simps append_Nil) (elim exE conjE)
  have T: "filter (\<lambda>ev. \<not> is_Send ev) T = T" "prefix (lines_added T) ?L" "sent T = []"
    using prefix_observed [OF p] ob by simp_all
  have all:
    "prefix (filter (\<lambda>ev. \<not> is_Send ev) (trace (snd run))) ?E \<and>
     prefix (lines_added (trace (snd run))) ?L \<and>
     (fst run = None \<longrightarrow>
        filter (\<lambda>ev. \<not> is_Send ev) (trace (snd run)) = ?E \<and>
        lines_added (trace (snd run)) = ?L \<and> sent (trace (snd run)) = ?ps) \<and>
     (list_all caught (calls call exts w) \<and> takes fw ?L (new_paginator fw) \<longrightarrow>
        filter (\<lambda>ev. \<not> is_Send ev) (trace (snd run)) = ?E \<and>
        lines_added (trace (snd run)) = ?L \<and>
        (delivered fw ?ps (world_after call exts w) \<longrightarrow> fst run = None))"
  proof (cases r)
    case (Some e)
    have r: "run = (Some e, s')" using run l Some by simp
    show ?thesis
      unfolding r using t p T q Some by auto
  next
    case None
    have r: "run = for_each (ctx_send fw) ?ps s'"
      using run l None n by (simp add: send_pages_def)
    from send_loop_sent [of ?ps fw s'] obtain k where
      k: "trace (snd run) = T @ map Send (take k ?ps)"
      and f: "fst run = None \<longrightarrow> k = length ?ps"
      unfolding r t by (elim exE conjE)
    have d: "delivered fw ?ps (world_after call exts w) \<longrightarrow> fst run = None"
      unfolding r using delivered_sends [of fw ?ps s'] n None by simp
    have e: "T = ?E" using n None by simp
    show ?thesis
      unfolding k using T f d ob unfolding e
      by (simp add: lines_added_append sent_append)
  qed
  show "prefix (filter (\<lambda>ev. \<not> is_Send ev) (trace (snd run))) ?E"
    and "prefix (lines_added (trace (snd run))) ?L"
    using all by simp_all
  show "fst run = None \<Longrightarrow>
           filter (\<lambda>ev. \<not> is_Send ev) (trace (snd run)) = ?E \<and>
           lines_added (trace (snd run)) = ?L \<and> sent (trace (snd run)) = ?ps"
    using all by simp
  show "list_all caught (calls call exts w) \<Longrightarrow> takes fw ?L (new_paginator fw) \<Longrightarrow>
           filter (\<lambda>ev. \<not> is_Send ev) (trace (snd run)) = ?E \<and>
           lines_added (trace (snd run)) = ?L"
    using all by simp
  show "list_all caught (calls call exts w) \<Longrightarrow> takes fw ?L (new_paginator fw) \<Longrightarrow>
         delivered fw ?ps (world_after call exts w) \<Longrightarrow> fst run = None"
    using all by simp
qed

lemmas load_handler =
  extension_handler [of "load_body fw" "load_call fw" fw "load_targets ctx extensions" w
    "jsk_load fw ctx extensions (start w h)" h,
    OF load_body_call conjunct1 [OF load_calls]] for fw ctx extensions w h

lemmas unload_handler =
  extension_handler [of "unload_body fw" "unload_call fw" fw "concat extensions" w
    "jsk_unload fw ctx extensions (start w h)" h,
    OF unload_body_call conjunct1 [OF unload_calls]] for fw ctx extensions w h


text \<open>The loop ends directly after a call only when the failure of the call is not caught.\<close>

lemma extension_loop_stops:
  assumes body: "\<And>n pg s. body n (pg, s) =
     (if caught (fst (call n (world s)))
      then paginator_add_line fw (report_line fw (fst (call n (world s))))
             (pg, called (fst (call n (world s))) (snd (call n (world s))) s)
      else (call_result (fst (call n (world s))), pg,
            called (fst (call n (world s))) (snd (call n (world s))) s))"
  shows "\<exists>T. trace (snd (snd (for_each body exts (pg, s)))) = trace s @ T \<and>
             (T \<noteq> [] \<and> is_call (last T) \<longrightarrow> \<not> caught (last T))"
proof (induction exts arbitrary: pg s)
  case Nil
  show ?case by (intro exI [of _ "[]"]) simp
next
  case (Cons n ns)
  obtain c w' where cl: "call n (world s) = (c, w')"
    by (cases "call n (world s)") auto
  define s1 where "s1 = called c w' s"
  have s1: "trace s1 = trace s @ [c]"
    by (simp add: s1_def called_def)
  show ?case
  proof (cases "caught c")
    case False
    then obtain e where e: "call_result c = Some e"
      by (cases "call_result c") (simp_all add: caught_def)
    have step: "for_each body (n # ns) (pg, s) = (Some e, pg, s1)"
      using body [of n pg s] cl False e by (simp add: s1_def)
    show ?thesis
      unfolding step by (intro exI [of _ "[c]"] conjI) (use s1 False in simp_all)
  next
    case True
    define s2 where "s2 = s1\<lparr>trace := trace s1 @ [AddLine (report_line fw c)]\<rparr>"
    have s2: "trace s2 = trace s @ [c, AddLine (report_line fw c)]"
      using s1 by (simp add: s2_def)
    have b: "body n (pg, s) = paginator_add_line fw (report_line fw c) (pg, s1)"
      using body [of n pg s] cl True by (simp add: s1_def)
    show ?thesis
    proof (cases "add_line fw (report_line fw c) pg")
      case (Inl e)
      have step: "for_each body (n # ns) (pg, s) = (Some e, pg, s2)"
        using b Inl by (simp add: paginator_add_line_def s2_def)
      show ?thesis
        unfolding step
        by (intro exI [of _ "[c, AddLine (report_line fw c)]"] conjI) (use s2 in simp_all)
    next
      case (Inr pg1)
      have step: "for_each body (n # ns) (pg, s) = for_each body ns (pg1, s2)"
        using b Inr by (simp add: paginator_add_line_def s2_def)
      from Cons.IH [of pg1 s2] obtain T where
        t: "trace (snd (snd (for_each body ns (pg1, s2)))) = trace s2 @ T"
        and u: "T \<noteq> [] \<and> is_call (last T) \<longrightarrow> \<not> caught (last T)"
        by (elim exE conjE)
      show ?thesis
        unfolding step
        by (intro exI [of _ "c # AddLine (report_line fw c) # T"] conjI)
           (use t u s2 in simp_all)
    qed
  qed
qed

lemma extension_handler_stops:
  assumes body: "\<And>n pg s. body n (pg, s) =
     (if caught (fst (call n (world s)))
      then paginator_add_line fw (report_line fw (fst (call n (world s))))
             (pg, called (fst (call n (world s))) (snd (call n (world s))) s)
      else (call_result (fst (call n (world s))), pg,
            called (fst (call n (world s))) (snd (call n (world s))) s))"
    and cs: "list_all is_call (calls call exts w)"
    and run: "run = (case for_each body exts (new_paginator fw, start w h) of
                       (Some e, pg, s') \<Rightarrow> (Some e, s')
                     | (None, pg, s') \<Rightarrow> send_pages fw pg s')"
    and stop: "filter (\<lambda>ev. \<not> is_Send ev) (trace (snd run)) \<noteq> []"
      "is_call (last (filter (\<lambda>ev. \<not> is_Send ev) (trace (snd run))))"
  shows "\<not> caught (last (filter (\<lambda>ev. \<not> is_Send ev) (trace (snd run))))"
proof -
  let ?E = "round_events fw (calls call exts w)"
  obtain r pg' s' where l: "for_each body exts (new_paginator fw, start w h) = (r, pg', s')"
    by (cases "for_each body exts (new_paginator fw, start w h)") auto
  from extension_loop [of body call fw exts "new_paginator fw" "start w h", OF body]
  obtain T where t: "trace s' = T" and p: "prefix T ?E"
    unfolding l by (simp only: fst_conv snd_conv start_simps append_Nil) (elim exE conjE)
  have T: "filter (\<lambda>ev. \<not> is_Send ev) T = T"
    using prefix_observed(3) [OF p] round_events_observed [OF cs, of fw] by simp
  from extension_loop_stops [of body call fw exts "new_paginator fw" "start w h", OF body]
  have u: "T \<noteq> [] \<and> is_call (last T) \<longrightarrow> \<not> caught (last T)"
    unfolding l using t by simp
  have "filter (\<lambda>ev. \<not> is_Send ev) (trace (snd run)) = T"
  proof (cases r)
    case (Some e)
    with run l t T show ?thesis by simp
  next
    case None
    have r: "run = for_each (ctx_send fw) (pages fw pg') s'"
      using run l None by (simp add: send_pages_def)
    from send_loop_sent [of "pages fw pg'" fw s'] obtain k where
      "trace (snd run) = T @ map Send (take k (pages fw pg'))"
      unfolding r t by (elim exE conjE)
    with T show ?thesis by simp
  qed
  with u stop show ?thesis by simp
qed

lemmas load_handler_stops =
  extension_handler_stops [of "load_body fw" "load_call fw" fw "load_targets ctx extensions" w
    "jsk_load fw ctx extensions (start w h)" h,
    OF load_body_call conjunct1 [OF load_calls]] for fw ctx extensions w h

lemmas unload_handler_stops =
  extension_handler_stops [of "unload_body fw" "unload_call fw" fw "concat extensions" w
    "jsk_unload fw ctx extensions (start w h)" h,
    OF unload_body_call conjunct1 [OF unload_calls]] for fw ctx extensions w h

lemma jsk_load_run:
  "\<not> not_allowed ctx \<Longrightarrow>
     jsk_load fw ctx extensions s =
       (case for_each (load_body fw) (load_targets ctx extensions) (new_paginator fw, s) of
          (Some e, pg, s') \<Rightarrow> (Some e, s')
        | (None, pg, s') \<Rightarrow> send_pages fw pg s')"
  by (simp add: jsk_load_def)

lemma jsk_unload_run:
  "\<not> not_allowed ctx \<Longrightarrow>
     jsk_unload fw ctx extensions s =
       (case for_each (unload_body fw) (concat extensions) (new_paginator fw, s) of
          (Some e, pg, s') \<Rightarrow> (Some e, s')
        | (None, pg, s') \<Rightarrow> send_pages fw pg s')"
  by (simp add: jsk_unload_def)

lemmas load_eval =
  jsk_load_def jsk_unload_def load_body_def unload_body_def load_targets_def report_extension_def
  paginator_add_line_def send_pages_def ctx_send_def called_def success_line_def failure_line_def
  load_icon_def reload_icon_def unload_icon_def not_allowed_def owner_def
  Paginator_new_def Paginator_add_line_def Paginator_pages_def close_page_def

lemmas report_eval =
  load_targets_def load_call_def unload_call_def caught_def call_result_def report_line_def
  report_def round_events_def fill_def success_line_def failure_line_def
  load_icon_def reload_icon_def unload_icon_def owner_def
  Paginator_new_def Paginator_add_line_def Paginator_pages_def close_page_def







subsection \<open>Exceptions that leave a handler\<close>

lemma unguarded_calls:
  "fst (send fw t w) = Some e \<Longrightarrow> unguarded fw e"
  "fst (edit fw t w) = Some e \<Longrightarrow> unguarded fw e"
  "fst (close fw w) = Some e \<Longrightarrow> unguarded fw e"
  "fst (application_info fw w) = Inl e \<Longrightarrow> unguarded fw e"
  "add_line fw line pg = Inl e \<Longrightarrow> unguarded fw e"
  by (auto simp: unguarded_def)

lemma unguarded_methods:
  "fst (load_extension fw n w) = Some e \<Longrightarrow> \<not> is_Exception e \<Longrightarrow> unguarded fw e"
  "fst (reload_extension fw n w) = Some e \<Longrightarrow> \<not> is_Exception e \<Longrightarrow> unguarded fw e"
  "fst (unload_extension fw n w) = Some e \<Longrightarrow> \<not> is_Exception e \<Longrightarrow> unguarded fw e"
  "file_loc_inspection fw to_inspect = Inl e \<Longrightarrow> \<not> is_Exception e \<Longrightarrow> unguarded fw e"
  "line_span_inspection fw to_inspect = Inl e \<Longrightarrow> \<not> is_Exception e \<Longrightarrow> unguarded fw e"
  by (auto simp: unguarded_def)

lemma unguarded_try:
  "fst (bulk_upsert_global fw app_id payload w) = Inl e \<Longrightarrow> \<not> is_HTTPException e \<Longrightarrow> unguarded fw e"
  "fst (bulk_upsert_guild fw app_id g payload w) = Inl e \<Longrightarrow> \<not> is_HTTPException e \<Longrightarrow> unguarded fw e"
  "app_command fw d = Some e \<Longrightarrow> \<not> is_HTTPException e \<Longrightarrow> unguarded fw e"
  by (auto simp: unguarded_def)

lemma raised_send: "fst (ctx_send fw t s) = Some e \<Longrightarrow> unguarded fw e"
  by (cases "send fw t (world s)") (auto simp: ctx_send_def intro: unguarded_calls(1) [of fw t "world s"])

lemma raised_send_pages:
  assumes "fst (send_pages fw pg s) = Some e"
  shows "unguarded fw e"
  using assms unfolding send_pages_def
  by (rule for_each_exception [where body = "ctx_send fw", rotated]) (rule raised_send)

lemma raised_add_line:
  "fst (paginator_add_line fw line st) = Some e \<Longrightarrow> unguarded fw e"
  by (cases st; cases "add_line fw line (fst st)")
     (auto simp: paginator_add_line_def Let_def intro: unguarded_calls(5))

lemma raised_report_extension:
  assumes "fst (report_extension fw icon extension r st) = Some e"
    and "r = Some e \<Longrightarrow> \<not> is_Exception e \<Longrightarrow> unguarded fw e"
  shows "unguarded fw e"
proof (cases r)
  case None
  with assms(1) show ?thesis by (auto simp: report_extension_def dest: raised_add_line)
next
  case (Some exc)
  show ?thesis
  proof (cases "is_Exception exc")
    case True
    with assms(1) Some show ?thesis by (auto simp: report_extension_def dest: raised_add_line)
  next
    case False
    with assms(1) Some have "exc = e" by (simp add: report_extension_def)
    with assms(2) Some False show ?thesis by simp
  qed
qed

lemma raised_load_body:
  assumes "fst (load_body fw extension st) = Some e"
  shows "unguarded fw e"
proof -
  obtain pg s where st: "st = (pg, s)" by (cases st) auto
  show ?thesis
  proof (cases "extension_loaded fw extension (world s)")
    case True
    obtain r w' where m: "reload_extension fw extension (world s) = (r, w')"
      by (cases "reload_extension fw extension (world s)") auto
    from assms have
      "fst (report_extension fw reload_icon extension r (pg, called (ReloadExtension extension r) w' s)) = Some e"
      by (simp add: load_body_def st True m)
    then show ?thesis
      by (rule raised_report_extension) (use m in \<open>auto intro: unguarded_methods(2) [of fw extension "world s"]\<close>)
  next
    case False
    obtain r w' where m: "load_extension fw extension (world s) = (r, w')"
      by (cases "load_extension fw extension (world s)") auto
    from assms have
      "fst (report_extension fw load_icon extension r (pg, called (LoadExtension extension r) w' s)) = Some e"
      by (simp add: load_body_def st False m)
    then show ?thesis
      by (rule raised_report_extension) (use m in \<open>auto intro: unguarded_methods(1) [of fw extension "world s"]\<close>)
  qed
qed

lemma raised_unload_body:
  assumes "fst (unload_body fw extension st) = Some e"
  shows "unguarded fw e"
proof -
  obtain pg s where st: "st = (pg, s)" by (cases st) auto
  obtain r w' where m: "unload_extension fw extension (world s) = (r, w')"
    by (cases "unload_extension fw extension (world s)") auto
  from assms have
    "fst (report_extension fw unload_icon extension r (pg, called (UnloadExtension extension r) w' s)) = Some e"
    by (simp add: unload_body_def st m)
  then show ?thesis
    by (rule raised_report_extension) (use m in \<open>auto intro: unguarded_methods(3) [of fw extension "world s"]\<close>)
qed

text \<open>A handler that is a loop over a paginator followed by the messages.\<close>

lemma raised_loop_and_pages:
  assumes body: "\<And>x st e. fst (body x st) = Some e \<Longrightarrow> unguarded fw e"
    and run: "fst (case for_each body xs (pg, s) of
                     (Some e, pg', s') \<Rightarrow> (Some e, s')
                   | (None, pg', s') \<Rightarrow> send_pages fw pg' s') = Some e"
  shows "unguarded fw e"
proof -
  obtain r pg' s' where l: "for_each body xs (pg, s) = (r, pg', s')"
    by (cases "for_each body xs (pg, s)") auto
  show ?thesis
  proof (cases r)
    case None
    with run l have "fst (send_pages fw pg' s') = Some e" by simp
    then show ?thesis by (rule raised_send_pages)
  next
    case (Some e')
    with run l have "fst (for_each body xs (pg, s)) = Some e" by simp
    then show ?thesis by (rule for_each_exception [where body = body, rotated]) (rule body)
  qed
qed

lemma raised_load:
  assumes "fst (jsk_load fw ctx extensions s) = Some e"
  shows "unguarded fw e"
proof (cases "not_allowed ctx")
  case True
  with assms show ?thesis by (simp add: jsk_load_def)
next
  case False
  with assms have
    "fst (case for_each (load_body fw) (load_targets ctx extensions) (new_paginator fw, s) of
            (Some e, pg', s') \<Rightarrow> (Some e, s')
          | (None, pg', s') \<Rightarrow> send_pages fw pg' s') = Some e"
    by (simp add: jsk_load_def)
  then show ?thesis
    by (rule raised_loop_and_pages [where body = "load_body fw", rotated]) (rule raised_load_body)
qed

lemma raised_unload:
  assumes "fst (jsk_unload fw ctx extensions s) = Some e"
  shows "unguarded fw e"
proof (cases "not_allowed ctx")
  case True
  with assms show ?thesis by (simp add: jsk_unload_def)
next
  case False
  with assms have
    "fst (case for_each (unload_body fw) (concat extensions) (new_paginator fw, s) of
            (Some e, pg', s') \<Rightarrow> (Some e, s')
          | (None, pg', s') \<Rightarrow> send_pages fw pg' s') = Some e"
    by (simp add: jsk_unload_def)
  then show ?thesis
    by (rule raised_loop_and_pages [where body = "unload_body fw", rotated]) (rule raised_unload_body)
qed

lemma raised_shutdown:
  assumes "fst (jsk_shutdown fw ctx s) = Some e"
  shows "unguarded fw e"
proof (cases "not_allowed ctx")
  case True
  with assms show ?thesis by (simp add: jsk_shutdown_def)
next
  case False
  obtain r s1 where c: "ctx_send fw ''Logging out now <:bot:1002153704645988372>'' s = (r, s1)"
    by (cases "ctx_send fw ''Logging out now <:bot:1002153704645988372>'' s") auto
  show ?thesis
  proof (cases r)
    case (Some e')
    with assms False c have "fst (ctx_send fw ''Logging out now <:bot:1002153704645988372>'' s) = Some e"
      by (simp add: jsk_shutdown_def)
    then show ?thesis by (rule raised_send)
  next
    case None
    obtain r' w' where k: "close fw (world s1) = (r', w')" by (cases "close fw (world s1)") auto
    with assms False c None have "fst (close fw (world s1)) = Some e"
      by (simp add: jsk_shutdown_def)
    then show ?thesis by (rule unguarded_calls(3))
  qed
qed

lemma raised_invite:
  assumes "fst (jsk_invite fw ctx perms s) = Some e"
  shows "unguarded fw e"
proof -
  obtain r w' where a: "application_info fw (world s) = (r, w')"
    by (cases "application_info fw (world s)") auto
  show ?thesis
  proof (cases r)
    case (Inl e')
    with assms a have "fst (application_info fw (world s)) = Inl e"
      by (simp add: jsk_invite_def Let_def)
    then show ?thesis by (rule unguarded_calls(4))
  next
    case (Inr client_id)
    with assms a show ?thesis
      by (auto simp: jsk_invite_def Let_def dest: raised_send)
  qed
qed

lemma raised_rtt_body:
  assumes "fst (rtt_body fw i st) = Some e"
  shows "unguarded fw e"
proof -
  obtain message api_readings websocket_readings s where
    st: "st = (message, api_readings, websocket_readings, s)"
    by (cases st) auto
  obtain before w1 where p: "perf_counter fw (world s) = (before, w1)"
    by (cases "perf_counter fw (world s)") auto
  let ?text = "rtt_text fw api_readings websocket_readings (world s)"
  obtain r w2 where c: "(if message then edit fw ?text w1 else send fw ?text w1) = (r, w2)"
    by (cases "if message then edit fw ?text w1 else send fw ?text w1") auto
  from assms have r: "r = Some e"
    using c by (cases r) (simp_all add: rtt_body_def st p Let_def split: prod.splits)
  show ?thesis
  proof (cases message)
    case True
    with c r have "fst (edit fw ?text w1) = Some e" by simp
    then show ?thesis by (rule unguarded_calls(2))
  next
    case False
    with c r have "fst (send fw ?text w1) = Some e" by simp
    then show ?thesis by (rule unguarded_calls(1))
  qed
qed

lemma raised_rtt:
  assumes "fst (jsk_rtt fw ctx s) = Some e"
  shows "unguarded fw e"
proof (cases "not_allowed ctx")
  case True
  with assms show ?thesis by (simp add: jsk_rtt_def)
next
  case False
  with assms have "fst (for_each (rtt_body fw) [0 ..< 6] (False, [], [], s)) = Some e"
    by (cases "for_each (rtt_body fw) [0 ..< 6] (False, [], [], s)") (simp add: jsk_rtt_def)
  then show ?thesis
    by (rule for_each_exception [where body = "rtt_body fw", rotated]) (rule raised_rtt_body)
qed


lemma first_failure_raised: "first_failure f ds = Some e \<Longrightarrow> \<exists>d. f d = Some e"
  by (induction ds) (auto split: option.splits)

lemma raised_upsert:
  assumes "fst (upsert_commands fw guild payload s) = Inl e" and "\<not> is_HTTPException e"
  shows "unguarded fw e"
proof -
  let ?app_id = "application_id fw (world s)"
  let ?call = "case guild of
                 None \<Rightarrow> bulk_upsert_global fw ?app_id payload (world s)
               | Some g \<Rightarrow> bulk_upsert_guild fw ?app_id g payload (world s)"
  obtain r w' where c: "?call = (r, w')" by (cases ?call) auto
  show ?thesis
  proof (cases r)
    case (Inl e')
    with assms(1) c have e: "e' = e" by (simp add: upsert_commands_def Let_def)
    show ?thesis
    proof (cases guild)
      case None
      with c Inl e have "fst (bulk_upsert_global fw ?app_id payload (world s)) = Inl e" by simp
      then show ?thesis using assms(2) by (rule unguarded_try(1))
    next
      case (Some g)
      with c Inl e have "fst (bulk_upsert_guild fw ?app_id g payload (world s)) = Inl e" by simp
      then show ?thesis using assms(2) by (rule unguarded_try(2))
    qed
  next
    case (Inr data)
    with assms(1) c have "first_failure (app_command fw) data = Some e"
      by (simp add: upsert_commands_def Let_def split: option.splits)
    then obtain d where "app_command fw d = Some e" by (auto dest: first_failure_raised)
    then show ?thesis using assms(2) by (rule unguarded_try(3))
  qed
qed

lemma raised_name_cause:
  assumes "name_cause fw h c name = Inl e"
  shows "unguarded fw e"
proof (cases "file_loc_inspection fw (command_callback h c)")
  case (Inl e')
  with assms have "e' = e" "\<not> is_Exception e"
    by (simp_all add: name_cause_def Let_def split: if_splits)
  with Inl show ?thesis by (auto intro: unguarded_methods(4))
next
  case (Inr file_loc)
  show ?thesis
  proof (cases "line_span_inspection fw (command_callback h c)")
    case (Inl e')
    with assms Inr have "e' = e" "\<not> is_Exception e"
      by (simp_all add: name_cause_def Let_def split: if_splits)
    with Inl show ?thesis by (auto intro: unguarded_methods(5))
  next
    case r: (Inr line_span)
    with assms Inr show ?thesis by (simp add: name_cause_def Let_def)
  qed
qed

lemma raised_diagnose_line:
  assumes "fst (diagnose_line fw slash_commands line h) = Some e"
  shows "unguarded fw e"
proof (cases "SLASH_COMMAND_ERROR line")
  case None
  with assms show ?thesis by (simp add: diagnose_line_def)
next
  case (Some group1)
  obtain r pool selected_command name h' where
    w: "walk fw slash_commands group1 h = (r, pool, selected_command, name, h')"
    by (cases "walk fw slash_commands group1 h") auto
  show ?thesis
  proof (cases r)
    case n: None
    show ?thesis
    proof (cases selected_command)
      case None
      with assms show ?thesis by (simp add: diagnose_line_def Some w n)
    next
      case c: (Some c)
      show ?thesis
      proof (cases "name_cause fw h' c name")
        case (Inl e')
        with assms have "e' = e"
          by (simp add: diagnose_line_def Some w n c split: if_splits)
        with Inl show ?thesis by (auto dest: raised_name_cause)
      next
        case (Inr notice)
        with assms show ?thesis by (simp add: diagnose_line_def Some w n c)
      qed
    qed
  next
    case e: (Some e')
    have "is_Exception e'"
      using walk_exception [of fw slash_commands group1 h e'] w e by simp
    with assms show ?thesis by (simp add: diagnose_line_def Some w e)
  qed
qed

lemma raised_diagnose:
  assumes "fst (diagnose fw slash_commands error h) = Some e"
  shows "unguarded fw e"
  using assms unfolding diagnose_def
proof (rule for_each_exception [where body = "diagnose_body fw slash_commands", rotated])
  fix line and st :: "string list \<times> store" and e'
  assume a: "fst (diagnose_body fw slash_commands line st) = Some e'"
  obtain error_lines h' where st: "st = (error_lines, h')" by (cases st) auto
  obtain r notices h'' where d: "diagnose_line fw slash_commands line h' = (r, notices, h'')"
    by (cases "diagnose_line fw slash_commands line h'") auto
  from a have "fst (diagnose_line fw slash_commands line h') = Some e'"
    by (simp add: diagnose_body_def st d)
  then show "unguarded fw e'" by (rule raised_diagnose_line)
qed

lemma raised_report_sync:
  assumes "fst (report_sync fw guild slash_commands synced (pg, s)) = Some e"
    and "\<And>error. synced = Inl error \<Longrightarrow> \<not> is_HTTPException error \<Longrightarrow> unguarded fw error"
  shows "unguarded fw e"
proof (cases synced)
  case (Inr n)
  with assms(1) show ?thesis by (auto simp: report_sync_def dest: raised_add_line)
next
  case (Inl error)
  show ?thesis
  proof (cases "is_HTTPException error")
    case False
    with assms(1) Inl have "error = e" by (simp add: report_sync_def)
    with assms(2) [OF Inl False] show ?thesis by simp
  next
    case True
    obtain r error_lines h' where d: "diagnose fw slash_commands error (heap s) = (r, error_lines, h')"
      by (cases "diagnose fw slash_commands error (heap s)") auto
    show ?thesis
    proof (cases r)
      case None
      with assms(1) Inl True d show ?thesis
        by (auto simp: report_sync_def dest: raised_add_line)
    next
      case (Some e')
      with assms(1) Inl True d have "fst (diagnose fw slash_commands error (heap s)) = Some e"
        by (simp add: report_sync_def)
      then show ?thesis by (rule raised_diagnose)
    qed
  qed
qed

lemma raised_sync_body:
  assumes "fst (sync_body fw guild st) = Some e"
  shows "unguarded fw e"
proof -
  obtain pg s where st: "st = (pg, s)" by (cases st) auto
  obtain slash_commands payload s1 where f: "fetch_commands fw guild s = (slash_commands, payload, s1)"
    by (cases "fetch_commands fw guild s") auto
  obtain synced s2 where u: "upsert_commands fw guild payload s1 = (synced, s2)"
    by (cases "upsert_commands fw guild payload s1") auto
  from assms have "fst (report_sync fw guild slash_commands synced (pg, s2)) = Some e"
    by (simp add: sync_body_def st f u)
  then show ?thesis
  proof (rule raised_report_sync)
    fix error
    assume "synced = Inl error" and "\<not> is_HTTPException error"
    then show "unguarded fw error"
      using raised_upsert [of fw guild payload s1 error] u by simp
  qed
qed

lemma raised_sync:
  assumes "fst (jsk_sync fw ctx targets s) = Some e"
  shows "unguarded fw e \<or>
         list_ex (\<lambda>t. bad_target fw ctx t \<and> e = Exc BadArgument (t @ '' is not a valid guild ID''))
           targets"
proof (cases "not_allowed ctx \<or> no_application_id fw (world s)")
  case True
  show ?thesis
  proof (cases "not_allowed ctx")
    case n: True
    with assms show ?thesis by (simp add: jsk_sync_def)
  next
    case n: False
    with True assms have
      "fst (ctx_send fw ''Cannot sync when application info not fetched'' s) = Some e"
      by (simp add: jsk_sync_def)
    then show ?thesis by (auto dest: raised_send)
  qed
next
  case False
  show ?thesis
  proof (cases "parse_targets fw ctx (world s) targets []")
    case (Parsed gs)
    with assms False have
      "fst (case for_each (sync_body fw) (sync_guilds targets gs) (new_paginator fw, s) of
              (Some e, pg', s') \<Rightarrow> (Some e, s')
            | (None, pg', s') \<Rightarrow> send_pages fw pg' s') = Some e"
      by (simp add: jsk_sync_def)
    then have "unguarded fw e"
      by (rule raised_loop_and_pages [where body = "sync_body fw", rotated]) (rule raised_sync_body)
    then show ?thesis by (rule disjI1)
  next
    case (Return_after_send notice)
    with assms False show ?thesis by (auto simp: jsk_sync_def dest: raised_send)
  next
    case (Raise e')
    with assms False have "e' = e" by (simp add: jsk_sync_def)
    with parse_targets_raises [OF Raise] show ?thesis by simp
  qed
qed


subsection \<open>Reports of the sync command\<close>

lemma upsert_event_observed [simp]:
  "lines_added [upsert_event app_id guild payload] = []"
  "sent [upsert_event app_id guild payload] = []"
  by (cases guild; simp add: upsert_event_def)+

lemma upsert_commands_world:
  "world s = world t \<Longrightarrow>
     fst (upsert_commands fw guild payload s) = fst (upsert_commands fw guild payload t) \<and>
     world (snd (upsert_commands fw guild payload s)) = world (snd (upsert_commands fw guild payload t))"
  by (simp add: upsert_commands_def Let_def called_def split: prod.splits sum.splits option.splits)

text \<open>The body of the loop of the sync command does what the round reports.\<close>

lemma sync_body_report:
  "\<exists>s2 E. trace s2 = trace s @ E \<and> lines_added E = [] \<and> sent E = [] \<and>
          world s2 = fst (snd (sync_report fw guild (world s) (heap s))) \<and>
          heap s2 = snd (snd (sync_report fw guild (world s) (heap s))) \<and>
          sync_body fw guild (pg, s) =
            (case fst (sync_report fw guild (world s) (heap s)) of
               Inr line \<Rightarrow> paginator_add_line fw line (pg, s2)
             | Inl e \<Rightarrow> (Some e, pg, s2))"
proof -
  let ?object = "if guild_truthy guild then guild else None"
  let ?commands = "get_all_commands fw ?object (world s)"
  let ?h1 = "heap s @ [PyList ?commands]"
  let ?payload = "map (to_dict fw ?h1) ?commands"
  let ?s1 = "s\<lparr>trace := trace s @ [GetAllCommands ?object], heap := ?h1\<rparr>"
  let ?t1 = "(start (world s) (heap s))\<lparr>trace := trace (start (world s) (heap s)) @ [GetAllCommands ?object],
               heap := ?h1\<rparr>"
  let ?E = "[GetAllCommands ?object, upsert_event (application_id fw (world s)) guild ?payload]"
  have f: "fetch_commands fw guild s = (length (heap s), ?payload, ?s1)"
    by (simp add: fetch_commands_def Let_def alloc_def)
  have f': "fetch_commands fw guild (start (world s) (heap s)) = (length (heap s), ?payload, ?t1)"
    by (simp add: fetch_commands_def Let_def alloc_def)
  obtain synced s2 where u: "upsert_commands fw guild ?payload ?s1 = (synced, s2)"
    by (cases "upsert_commands fw guild ?payload ?s1") auto
  obtain synced' t2 where u': "upsert_commands fw guild ?payload ?t1 = (synced', t2)"
    by (cases "upsert_commands fw guild ?payload ?t1") auto
  have w: "synced' = synced" "world t2 = world s2"
    using upsert_commands_world [of ?s1 ?t1 fw guild ?payload] u u' by simp_all
  have h: "heap s2 = ?h1" "heap t2 = ?h1"
    using upsert_commands_heap [of fw guild ?payload ?s1]
      upsert_commands_heap [of fw guild ?payload ?t1] u u' by simp_all
  have t: "trace s2 = trace s @ ?E"
    using upsert_commands_trace [of fw guild ?payload ?s1] u by simp
  have r: "sync_round fw guild (world s) (heap s) = (length (heap s), synced, world s2, ?h1)"
    unfolding sync_round_def Let_def f' prod.case u' by (simp add: w h)
  have b: "sync_body fw guild (pg, s) = report_sync fw guild (length (heap s)) synced (pg, s2)"
    by (simp add: sync_body_def f u)
  have o: "lines_added ?E = []" "sent ?E = []"
    using upsert_event_observed [of "application_id fw (world s)" guild ?payload]
    by (simp_all add: lines_added_append [of "[GetAllCommands ?object]", simplified]
        sent_append [of "[GetAllCommands ?object]", simplified])
  show ?thesis
  proof (cases synced)
    case (Inr n)
    show ?thesis
      by (intro exI [of _ s2] exI [of _ ?E] conjI)
         (simp_all add: t o sync_report_def r Inr b report_sync_def h)
  next
    case (Inl error)
    show ?thesis
    proof (cases "is_HTTPException error")
      case False
      show ?thesis
        by (intro exI [of _ s2] exI [of _ ?E] conjI)
           (simp_all add: t o sync_report_def r Inl False b report_sync_def h)
    next
      case True
      obtain x error_lines h' where
        d: "diagnose fw (length (heap s)) error ?h1 = (x, error_lines, h')"
        by (cases "diagnose fw (length (heap s)) error ?h1") auto
      show ?thesis
        by (cases x; intro exI [of _ "s2\<lparr>heap := h'\<rparr>"] exI [of _ ?E] conjI)
           (simp_all add: t o sync_report_def r Inl True b report_sync_def h d)
    qed
  qed
qed


lemma sync_loop_reports:
  "\<exists>E. trace (snd (snd (for_each (sync_body fw) guilds (pg, s)))) = trace s @ E \<and>
        sent E = [] \<and>
        prefix (lines_added E) (sync_reports fw guilds (world s) (heap s)) \<and>
        (fst (for_each (sync_body fw) guilds (pg, s)) = None \<longrightarrow>
           lines_added E = sync_reports fw guilds (world s) (heap s) \<and>
           length (sync_reports fw guilds (world s) (heap s)) = length guilds \<and>
           fst (snd (for_each (sync_body fw) guilds (pg, s)))
             = fill fw (sync_reports fw guilds (world s) (heap s)) pg)"
proof (induction guilds arbitrary: pg s)
  case Nil
  show ?case by (intro exI [of _ "[]"]) (simp add: fill_def)
next
  case (Cons guild guilds)
  obtain x w' h' where R: "sync_report fw guild (world s) (heap s) = (x, w', h')"
    by (cases "sync_report fw guild (world s) (heap s)") auto
  from sync_body_report [of s fw guild pg] obtain s2 E where
    t: "trace s2 = trace s @ E" and l: "lines_added E = []" and m: "sent E = []"
    and w: "world s2 = w'" and h: "heap s2 = h'"
    and b: "sync_body fw guild (pg, s) =
              (case x of Inr line \<Rightarrow> paginator_add_line fw line (pg, s2)
                       | Inl e \<Rightarrow> (Some e, pg, s2))"
    unfolding R by (simp only: fst_conv snd_conv) (elim exE conjE)
  show ?case
  proof (cases x)
    case (Inl e)
    have step: "for_each (sync_body fw) (guild # guilds) (pg, s) = (Some e, pg, s2)"
      using b Inl by simp
    show ?thesis
      unfolding step
      by (intro exI [of _ E] conjI) (simp_all add: t l m R Inl)
  next
    case (Inr line)
    define s3 where "s3 = s2\<lparr>trace := trace s2 @ [AddLine line]\<rparr>"
    have s3: "world s3 = w'" "heap s3 = h'" "trace s3 = trace s @ E @ [AddLine line]"
      by (simp_all add: s3_def w h t)
    show ?thesis
    proof (cases "add_line fw line pg")
      case a: (Inl e)
      have step: "for_each (sync_body fw) (guild # guilds) (pg, s) = (Some e, pg, s3)"
        using b Inr a by (simp add: paginator_add_line_def s3_def)
      show ?thesis
        unfolding step
        by (intro exI [of _ "E @ [AddLine line]"] conjI)
           (simp_all add: s3 l m R Inr lines_added_append sent_append)
    next
      case a: (Inr pg1)
      have step: "for_each (sync_body fw) (guild # guilds) (pg, s) = for_each (sync_body fw) guilds (pg1, s3)"
        using b Inr a by (simp add: paginator_add_line_def s3_def)
      from Cons.IH [of pg1 s3] obtain E' where
        t': "trace (snd (snd (for_each (sync_body fw) guilds (pg1, s3)))) = trace s3 @ E'"
        and m': "sent E' = []"
        and p': "prefix (lines_added E') (sync_reports fw guilds w' h')"
        and r': "fst (for_each (sync_body fw) guilds (pg1, s3)) = None \<longrightarrow>
           lines_added E' = sync_reports fw guilds w' h' \<and>
           length (sync_reports fw guilds w' h') = length guilds \<and>
           fst (snd (for_each (sync_body fw) guilds (pg1, s3)))
             = fill fw (sync_reports fw guilds w' h') pg1"
        unfolding s3(1,2) by (elim exE conjE)
      show ?thesis
        unfolding step
        by (intro exI [of _ "E @ [AddLine line] @ E'"] conjI)
           (use t' m' p' r' a in \<open>simp_all add: s3 l m R Inr lines_added_append sent_append fill_Cons\<close>)
    qed
  qed
qed

text \<open>
  The run of the sync command whose targets are read to the end: the lines given to the
  paginator are the start of the lines of the rounds, and when it returns they are all of
  them, one for each guild, and the messages are the pages of the paginator that holds
  them.
\<close>

lemma sync_handler_reports:
  assumes "\<not> not_allowed ctx" and "\<not> no_application_id fw w"
    and "\<not> list_ex (bad_target fw ctx) targets"
  shows "prefix (lines_added (trace (snd (jsk_sync fw ctx targets (start w h)))))
           (sync_reports fw (sync_order fw ctx w targets) w h)"
    and "fst (jsk_sync fw ctx targets (start w h)) = None \<Longrightarrow>
           lines_added (trace (snd (jsk_sync fw ctx targets (start w h))))
             = sync_reports fw (sync_order fw ctx w targets) w h \<and>
           length (sync_reports fw (sync_order fw ctx w targets) w h)
             = length (sync_order fw ctx w targets) \<and>
           sent (trace (snd (jsk_sync fw ctx targets (start w h))))
             = pages fw (fill fw (sync_reports fw (sync_order fw ctx w targets) w h) (new_paginator fw))"
proof -
  let ?run = "jsk_sync fw ctx targets (start w h)"
  from parse_targets_parsed [OF assms(3), of w "[]"] obtain gs where
    p: "parse_targets fw ctx w targets [] = Parsed gs" by blast
  let ?guilds = "sync_guilds targets gs"
  let ?L = "sync_reports fw ?guilds w h"
  have o: "sync_order fw ctx w targets = ?guilds" by (simp add: sync_order_def p)
  obtain r pg s' where l: "for_each (sync_body fw) ?guilds (new_paginator fw, start w h) = (r, pg, s')"
    by (cases "for_each (sync_body fw) ?guilds (new_paginator fw, start w h)") auto
  have j: "?run = (case r of Some e \<Rightarrow> (Some e, s') | None \<Rightarrow> send_pages fw pg s')"
    by (rule jsk_sync_parsed [OF assms(1) _ _ l]) (simp_all add: assms(2) p)
  from sync_loop_reports [of fw ?guilds "new_paginator fw" "start w h"] obtain E where
    t: "trace s' = E" and m: "sent E = []" and q: "prefix (lines_added E) ?L"
    and n: "r = None \<longrightarrow> lines_added E = ?L \<and> length ?L = length ?guilds \<and>
              pg = fill fw ?L (new_paginator fw)"
    unfolding l by (simp only: fst_conv snd_conv start_simps append_Nil) (elim exE conjE)
  have all: "prefix (lines_added (trace (snd ?run))) ?L \<and>
    (fst ?run = None \<longrightarrow>
       lines_added (trace (snd ?run)) = ?L \<and> length ?L = length ?guilds \<and>
       sent (trace (snd ?run)) = pages fw (fill fw ?L (new_paginator fw)))"
  proof (cases r)
    case (Some e)
    show ?thesis unfolding j using Some t q by simp
  next
    case None
    have r: "?run = for_each (ctx_send fw) (pages fw pg) s'"
      unfolding j using None by (simp add: send_pages_def)
    from send_loop_sent [of "pages fw pg" fw s'] obtain k where
      k: "trace (snd ?run) = E @ map Send (take k (pages fw pg))"
      and f: "fst ?run = None \<longrightarrow> k = length (pages fw pg)"
      unfolding r t by (elim exE conjE)
    show ?thesis
      unfolding k using n None m f q by (simp add: lines_added_append sent_append)
  qed
  show "prefix (lines_added (trace (snd ?run))) (sync_reports fw (sync_order fw ctx w targets) w h)"
    using all unfolding o by simp
  show "fst ?run = None \<Longrightarrow>
           lines_added (trace (snd ?run)) = sync_reports fw (sync_order fw ctx w targets) w h \<and>
           length (sync_reports fw (sync_order fw ctx w targets) w h)
             = length (sync_order fw ctx w targets) \<and>
           sent (trace (snd ?run))
             = pages fw (fill fw (sync_reports fw (sync_order fw ctx w targets) w h) (new_paginator fw))"
    using all unfolding o by simp
qed

text \<open>The lines of the diagnosis hold the lines of the error, in their order.\<close>

lemma diagnose_loop_lines:
  assumes "for_each (diagnose_body fw slash_commands) ls (acc, h) = (None, out, h')"
  shows "\<exists>rest. out = acc @ rest \<and> subseq ls rest"
  using assms
proof (induction ls arbitrary: acc h)
  case Nil
  then show ?case by simp
next
  case (Cons line ls)
  obtain r notices h1 where d: "diagnose_line fw slash_commands line h = (r, notices, h1)"
    by (cases "diagnose_line fw slash_commands line h") auto
  have b: "diagnose_body fw slash_commands line (acc, h) = (r, acc @ [line] @ notices, h1)"
    by (simp add: diagnose_body_def d)
  from Cons.prems b have r: "r = None" by (cases r) simp_all
  from Cons.prems b r have
    "for_each (diagnose_body fw slash_commands) ls (acc @ [line] @ notices, h1) = (None, out, h')"
    by simp
  from Cons.IH [OF this] obtain rest where
    o: "out = (acc @ [line] @ notices) @ rest" and s: "subseq ls rest" by blast
  have "subseq (line # ls) (line # notices @ rest)"
    using s by (simp add: list_emb_append2)
  with o show ?case by (intro exI [of _ "line # notices @ rest"]) simp
qed

lemma diagnose_lines:
  assumes "diagnose fw slash_commands error h = (None, error_lines, h')"
  shows "subseq (split (CHR 0x0A) (exc_str error)) error_lines"
  using diagnose_loop_lines [of fw slash_commands "split (CHR 0x0A) (exc_str error)" "[]" h error_lines h']
    assms by (simp add: diagnose_def)





end
